theory Spec2Isabelle
  imports Main "HOL-Library.List_Lexorder" "HOL-Library.Multiset"
begin

section \<open>Python values used by get\_events\_artists.py\<close>

text \<open>
  A Python \<open>str\<close> is a sequence of Unicode code points, so it is modelled as a list of
  natural numbers: \<open>length\<close> counts code points as \<open>len\<close> does, and the order of
  \<open>HOL-Library.List_Lexorder\<close> on such lists is the order in which Python compares
  strings. A literal of the source is written \<open>lit ''...''\<close>.
\<close>

type_synonym pystr = "nat list"

definition lit :: "string \<Rightarrow> pystr" where
  "lit s = map of_char s"

datatype error = IndexError | KeyError | ValueError

text \<open>
  What the script takes from the interpreter and its libraries and what is not in the
  repository: the Unicode character database behind \<open>str.isalpha\<close>, \<open>str.strip\<close>,
  \<open>str.upper\<close> and \<open>str.lower\<close>, \<open>urllib.parse.urljoin\<close> (which raises
  \<open>ValueError\<close> on some malformed references) and the order in which a \<open>set\<close> is
  iterated. They are parameters of every function below, so each general theorem holds for
  whatever these tables contain.
\<close>

record pylib =
  py_isalpha :: "nat \<Rightarrow> bool"
  py_isspace :: "nat \<Rightarrow> bool"
  py_upper :: "nat \<Rightarrow> pystr"
  py_lower :: "pystr \<Rightarrow> pystr"
  py_urljoin :: "pystr \<Rightarrow> pystr \<Rightarrow> error + pystr"
  py_set_iter :: "pystr set \<Rightarrow> pystr list"

text \<open>\<open>s.isalpha()\<close>: every character is alphabetic and there is at least one.\<close>

definition str_isalpha :: "pylib \<Rightarrow> pystr \<Rightarrow> bool" where
  "str_isalpha L s = (s \<noteq> [] \<and> list_all (py_isalpha L) s)"

text \<open>\<open>s.upper()\<close> maps every character by itself (one character may become several).\<close>

definition str_upper :: "pylib \<Rightarrow> pystr \<Rightarrow> pystr" where
  "str_upper L s = concat (map (py_upper L) s)"

text \<open>\<open>s.strip()\<close> removes leading and trailing whitespace.\<close>

definition strip :: "pylib \<Rightarrow> pystr \<Rightarrow> pystr" where
  "strip L s = rev (dropWhile (py_isspace L) (rev (dropWhile (py_isspace L) s)))"

definition startswith :: "pystr \<Rightarrow> pystr \<Rightarrow> bool" where
  "startswith s p = (take (length p) s = p)"

definition endswith :: "pystr \<Rightarrow> pystr \<Rightarrow> bool" where
  "endswith s p = (length p \<le> length s \<and> drop (length s - length p) s = p)"

text \<open>\<open>sub in s\<close> for strings: \<open>sub\<close> occurs as a contiguous slice of \<open>s\<close>.\<close>

fun str_contains :: "pystr \<Rightarrow> pystr \<Rightarrow> bool" where
  "str_contains sub [] = (sub = [])"
| "str_contains sub (c # cs) = (startswith (c # cs) sub \<or> str_contains sub cs)"

text \<open>\<open>s[i]\<close> for \<open>i \<ge> 0\<close>: raises \<open>IndexError\<close> out of range.\<close>

definition getitem :: "pystr \<Rightarrow> nat \<Rightarrow> error + nat" where
  "getitem s i = (if i < length s then Inr (s ! i) else Inl IndexError)"

subsection \<open>A concrete library for evaluating examples\<close>

text \<open>
  These tables agree with CPython's Unicode database on the code points U+0000 to U+00FF
  (Basic Latin and Latin-1 Supplement) and on the two code points outside that range which
  \<open>upper\<close> reaches from it (U+0178 and U+039C). They are used only to evaluate the
  functions at concrete inputs made of such code points.
\<close>

definition latin1_isalpha :: "nat \<Rightarrow> bool" where
  "latin1_isalpha c = ((65 \<le> c \<and> c \<le> 90) \<or> (97 \<le> c \<and> c \<le> 122) \<or> c = 170 \<or> c = 181 \<or> c = 186
     \<or> (192 \<le> c \<and> c \<le> 214) \<or> (216 \<le> c \<and> c \<le> 246) \<or> (248 \<le> c \<and> c \<le> 255)
     \<or> c = 376 \<or> c = 924)"

definition latin1_isspace :: "nat \<Rightarrow> bool" where
  "latin1_isspace c = ((9 \<le> c \<and> c \<le> 13) \<or> (28 \<le> c \<and> c \<le> 32) \<or> c = 133 \<or> c = 160)"

definition latin1_upper :: "nat \<Rightarrow> pystr" where
  "latin1_upper c =
     (if 97 \<le> c \<and> c \<le> 122 then [c - 32]
      else if c = 181 then [924]
      else if c = 223 then [83, 83]
      else if (224 \<le> c \<and> c \<le> 246) \<or> (248 \<le> c \<and> c \<le> 254) then [c - 32]
      else if c = 255 then [376]
      else [c])"

definition latin1_lower_char :: "nat \<Rightarrow> nat" where
  "latin1_lower_char c =
     (if (65 \<le> c \<and> c \<le> 90) \<or> (192 \<le> c \<and> c \<le> 214) \<or> (216 \<le> c \<and> c \<le> 222) then c + 32 else c)"

text \<open>
  A resolver for the references the examples use against a base that has no path:
  an absolute http(s) URL is kept, a reference starting with \<open>//\<close> takes the scheme
  \<open>https:\<close> (and is refused with \<open>ValueError\<close> when its host opens a bracket that it does
  not close, as \<open>urlsplit\<close> does), a path is appended to the base.
\<close>

definition sample_urljoin :: "pystr \<Rightarrow> pystr \<Rightarrow> error + pystr" where
  "sample_urljoin base url =
     (if startswith url (lit ''https://'') \<or> startswith url (lit ''http://'') then Inr url
      else if startswith url (lit ''//'') then
        (let netloc = takeWhile (\<lambda>c. c \<noteq> 47 \<and> c \<noteq> 63 \<and> c \<noteq> 35) (drop 2 url)
         in if (91 \<in> set netloc) \<noteq> (93 \<in> set netloc) then Inl ValueError
            else Inr (lit ''https:'' @ url))
      else if startswith url (lit ''/'') then Inr (base @ url)
      else Inr (base @ lit ''/'' @ url))"

definition cpython_latin1 :: pylib where
  "cpython_latin1 = \<lparr> py_isalpha = latin1_isalpha, py_isspace = latin1_isspace,
     py_upper = latin1_upper, py_lower = map latin1_lower_char,
     py_urljoin = sample_urljoin, py_set_iter = sorted_list_of_set \<rparr>"

section \<open>Sorter and formatter\<close>

text \<open>
  \<open>sort_artists\<close> (lines 210 to 227). The inner function \<open>sort_key\<close> of the source is
  \<open>sort_key_artist\<close> here. \<open>sorted(artists, key=sort_key)\<close> first lists the set in its
  iteration order and then sorts that list stably by the key; \<^const>\<open>sort_key\<close> of the
  HOL library is the stable sort by a key.
\<close>

definition sort_key_artist :: "pylib \<Rightarrow> bool \<Rightarrow> pystr \<Rightarrow> pystr" where
  "sort_key_artist L ignore_the artist =
     (if ignore_the \<and> startswith (py_lower L artist) (lit ''the '')
      then py_lower L (drop 4 artist)
      else py_lower L artist)"

definition sort_artists :: "pylib \<Rightarrow> pystr set \<Rightarrow> bool \<Rightarrow> pystr list" where
  "sort_artists L artists ignore_the =
     sort_key (sort_key_artist L ignore_the) (py_set_iter L artists)"

text \<open>
  The sort key as the specification words it: the name in lower case, except that with the
  option set and a name that starts, whatever its case, with \<open>the \<close> followed by more text,
  the first four characters are dropped before the name is put in lower case.
\<close>

definition spec_sort_key :: "pylib \<Rightarrow> bool \<Rightarrow> pystr \<Rightarrow> pystr" where
  "spec_sort_key L ignore_the artist =
     (if ignore_the \<and> startswith (py_lower L artist) (lit ''the '') \<and> length artist > 4
      then py_lower L (drop 4 artist)
      else py_lower L artist)"

text \<open>
  \<open>format_output_with_headings\<close> (lines 230 to 281). Lines 248 to 250 compute
  \<open>check_char\<close> and lines 269 to 271 compute \<open>group_letter\<close>; \<open>artist[0]\<close> is read
  before the condition is tested, and both reads can raise \<open>IndexError\<close>.
\<close>

definition check_char :: "pylib \<Rightarrow> bool \<Rightarrow> pystr \<Rightarrow> error + pystr" where
  "check_char L ignore_the artist =
     (case getitem artist 0 of
        Inl e \<Rightarrow> Inl e
      | Inr c0 \<Rightarrow>
          if ignore_the \<and> startswith (py_lower L artist) (lit ''the '') \<and> length artist > 4
          then (case getitem artist 4 of
                  Inl e \<Rightarrow> Inl e
                | Inr c4 \<Rightarrow> Inr (str_upper L [c4]))
          else Inr (str_upper L [c0]))"

definition group_letter :: "pylib \<Rightarrow> bool \<Rightarrow> pystr \<Rightarrow> error + pystr" where
  "group_letter L ignore_the artist =
     (case getitem artist 0 of
        Inl e \<Rightarrow> Inl e
      | Inr c0 \<Rightarrow>
          if ignore_the \<and> startswith (py_lower L artist) (lit ''the '') \<and> length artist > 4
          then (case getitem artist 4 of
                  Inl e \<Rightarrow> Inl e
                | Inr c4 \<Rightarrow> Inr (str_upper L [c4]))
          else Inr (str_upper L [c0]))"

text \<open>The loop of lines 246 to 254, with \<open>numbers_symbols\<close> as its accumulator.\<close>

fun numbers_symbols_loop :: "pylib \<Rightarrow> bool \<Rightarrow> pystr list \<Rightarrow> pystr list \<Rightarrow> error + pystr list" where
  "numbers_symbols_loop L ignore_the [] numbers_symbols = Inr numbers_symbols"
| "numbers_symbols_loop L ignore_the (artist # rest) numbers_symbols =
     (case check_char L ignore_the artist of
        Inl e \<Rightarrow> Inl e
      | Inr ch \<Rightarrow>
          numbers_symbols_loop L ignore_the rest
            (if \<not> str_isalpha L ch then numbers_symbols @ [artist] else numbers_symbols))"

text \<open>The inner loop of lines 267 to 274 for one letter.\<close>

fun artists_for_letter_loop :: "pylib \<Rightarrow> bool \<Rightarrow> nat \<Rightarrow> pystr list \<Rightarrow> pystr list \<Rightarrow> error + pystr list" where
  "artists_for_letter_loop L ignore_the letter [] artists_for_letter = Inr artists_for_letter"
| "artists_for_letter_loop L ignore_the letter (artist # rest) artists_for_letter =
     (case group_letter L ignore_the artist of
        Inl e \<Rightarrow> Inl e
      | Inr g \<Rightarrow>
          artists_for_letter_loop L ignore_the letter rest
            (if g = [letter] then artists_for_letter @ [artist] else artists_for_letter))"

definition letter_heading :: "nat \<Rightarrow> pystr" where
  "letter_heading letter = [10] @ lit ''=== '' @ [letter] @ lit '' ===''"

definition symbols_heading :: pystr where
  "symbols_heading = [10] @ lit ''=== # (Numbers & Symbols) ===''"

definition none_line :: pystr where
  "none_line = lit ''(none)''"

text \<open>The outer loop of lines 262 to 279 over the letters that remain.\<close>

fun letters_loop :: "pylib \<Rightarrow> bool \<Rightarrow> pystr list \<Rightarrow> nat list \<Rightarrow> pystr list \<Rightarrow> error + pystr list" where
  "letters_loop L ignore_the sorted_artists [] output_lines = Inr output_lines"
| "letters_loop L ignore_the sorted_artists (letter # letters) output_lines =
     (case artists_for_letter_loop L ignore_the letter sorted_artists [] of
        Inl e \<Rightarrow> Inl e
      | Inr artists_for_letter \<Rightarrow>
          letters_loop L ignore_the sorted_artists letters
            (output_lines @ [letter_heading letter]
               @ (if artists_for_letter \<noteq> [] then artists_for_letter else [none_line])))"

definition format_output_with_headings :: "pylib \<Rightarrow> pystr list \<Rightarrow> bool \<Rightarrow> error + pystr list" where
  "format_output_with_headings L sorted_artists ignore_the =
     (case numbers_symbols_loop L ignore_the sorted_artists [] of
        Inl e \<Rightarrow> Inl e
      | Inr numbers_symbols \<Rightarrow>
          letters_loop L ignore_the sorted_artists (lit ''ABCDEFGHIJKLMNOPQRSTUVWXYZ'')
            ([symbols_heading] @ (if numbers_symbols \<noteq> [] then numbers_symbols else [none_line])))"

section \<open>Event-URL canonicalisation\<close>

definition BASE_URL :: pystr where
  "BASE_URL = lit ''https://www.last.fm''"

text \<open>\<open>s[:-n]\<close> for \<open>n \<ge> 0\<close> (with \<open>n = 0\<close> the slice \<open>s[:0]\<close> is empty).\<close>

definition drop_last :: "pystr \<Rightarrow> nat \<Rightarrow> pystr" where
  "drop_last s n = (if n = 0 then [] else take (length s - n) s)"

definition known_suffixes :: "pystr list" where
  "known_suffixes = [lit ''/attendance'', lit ''/going'', lit ''/interested'', lit ''/lineup'']"

text \<open>The body of the loop of lines 68 to 70 for one suffix.\<close>

definition strip_suffix :: "pystr \<Rightarrow> pystr \<Rightarrow> pystr" where
  "strip_suffix full_url suffix =
     (if endswith full_url suffix then drop_last full_url (length suffix) else full_url)"

text \<open>
  Lines 66 to 72: \<open>full_url.split('?')[0]\<close> keeps what precedes the first question mark
  (code point 63), the loop tries the four suffixes once each in the order of the list, and
  \<open>/lineup\<close> is appended.
\<close>

definition clean_event_url :: "pystr \<Rightarrow> pystr" where
  "clean_event_url full_url =
     foldl strip_suffix (takeWhile (\<lambda>c. c \<noteq> 63) full_url) known_suffixes @ lit ''/lineup''"

section \<open>Parsed pages\<close>

text \<open>
  What \<open>BeautifulSoup(response.content, 'html.parser')\<close> returns is taken as given: a
  forest of text nodes and tags, a tag with its name, its \<open>class\<close> attribute (a list of
  values when present), its \<open>href\<close> attribute (when present) and its children. The
  queries of bs4 that the script uses are defined on it.
\<close>

datatype node =
    NavigableString pystr
  | Tag pystr "pystr list option" "pystr option" "node list"

type_synonym soup = "node list"

fun descendants :: "node \<Rightarrow> node list" where
  "descendants (NavigableString s) = []"
| "descendants (Tag n c h kids) = concat (map (\<lambda>k. k # descendants k) kids)"

fun contents :: "node \<Rightarrow> node list" where
  "contents (NavigableString s) = []"
| "contents (Tag n c h kids) = kids"

fun class_of :: "node \<Rightarrow> pystr list option" where
  "class_of (NavigableString s) = None"
| "class_of (Tag n c h kids) = c"

fun href_of :: "node \<Rightarrow> pystr option" where
  "href_of (NavigableString s) = None"
| "href_of (Tag n c h kids) = h"

fun has_name :: "pystr list \<Rightarrow> node \<Rightarrow> bool" where
  "has_name names (NavigableString s) = False"
| "has_name names (Tag n c h kids) = (n \<in> set names)"

text \<open>\<open>find_all\<close> lists the matching descendants in document order; \<open>find\<close>, here \<open>find_tag\<close>, returns the first.\<close>

definition find_all :: "node list \<Rightarrow> (node \<Rightarrow> bool) \<Rightarrow> node list" where
  "find_all roots P = filter P (concat (map (\<lambda>k. k # descendants k) roots))"

definition find_tag :: "node list \<Rightarrow> (node \<Rightarrow> bool) \<Rightarrow> node option" where
  "find_tag roots P = (case find_all roots P of [] \<Rightarrow> None | t # _ \<Rightarrow> Some t)"

text \<open>\<open>sep.join(values)\<close>.\<close>

fun join :: "pystr \<Rightarrow> pystr list \<Rightarrow> pystr" where
  "join sep [] = []"
| "join sep [v] = v"
| "join sep (v # vs) = v @ sep @ join sep vs"

text \<open>
  How bs4 matches \<open>class_=f\<close> against the multi-valued attribute: a tag without the
  attribute does not match, otherwise some value matches or the values joined by spaces do.
\<close>

definition class_matches :: "(pystr \<Rightarrow> bool) \<Rightarrow> node \<Rightarrow> bool" where
  "class_matches f t =
     (case class_of t of None \<Rightarrow> False | Some vs \<Rightarrow> list_ex f vs \<or> f (join [32] vs))"

text \<open>\<open>get_text(strip=True)\<close>: the text nodes below the tag, each stripped, the empty ones
  left out, concatenated.\<close>

fun strings_of :: "node \<Rightarrow> pystr list" where
  "strings_of (NavigableString s) = [s]"
| "strings_of (Tag n c h kids) = concat (map strings_of kids)"

definition get_text_strip :: "pylib \<Rightarrow> node \<Rightarrow> pystr" where
  "get_text_strip L t = concat (filter (\<lambda>s. s \<noteq> []) (map (strip L) (strings_of t)))"

section \<open>Artist extraction from a lineup page\<close>

text \<open>\<open>if artist_name: artists.add(artist_name)\<close>.\<close>

definition add_name :: "pystr \<Rightarrow> pystr set \<Rightarrow> pystr set" where
  "add_name artist_name artists = (if artist_name \<noteq> [] then insert artist_name artists else artists)"

definition is_artist_link :: "node \<Rightarrow> bool" where
  "is_artist_link t = (has_name [lit ''a''] t \<and> class_matches (\<lambda>x. x = lit ''link-block-target'') t)"

definition is_heading :: "node \<Rightarrow> bool" where
  "is_heading t = has_name [lit ''h1'', lit ''h2'', lit ''h3''] t"

text \<open>\<open>'event-detail-artists' in tag.get('class', [])\<close>.\<close>

definition has_artists_class :: "node \<Rightarrow> bool" where
  "has_artists_class t =
     (lit ''event-detail-artists'' \<in> set (case class_of t of None \<Rightarrow> [] | Some vs \<Rightarrow> vs))"

text \<open>Line 136; a tag is always true in a condition, so \<open>or\<close> takes the second only
  when the first \<open>find\<close> returns \<open>None\<close>.\<close>

definition lineup_section :: "soup \<Rightarrow> node option" where
  "lineup_section page =
     (case find_tag page (\<lambda>t. has_name [lit ''section''] t \<and> class_matches (\<lambda>x. x = lit ''lineup-section'') t) of
        Some t \<Rightarrow> Some t
      | None \<Rightarrow> find_tag page (\<lambda>t. has_name [lit ''div''] t \<and> class_matches (\<lambda>x. x = lit ''lineup'') t))"

text \<open>The body of the loop of lines 138 to 143 for one list item.\<close>

definition add_item :: "pylib \<Rightarrow> node \<Rightarrow> pystr set \<Rightarrow> pystr set" where
  "add_item L item artists =
     (case find_tag (contents item) (has_name [lit ''a'']) of
        None \<Rightarrow> artists
      | Some artist_link \<Rightarrow> add_name (get_text_strip L artist_link) artists)"

text \<open>Lines 118 to 143: the three loops add to the same set one after the other.\<close>

definition lineup_artists :: "pylib \<Rightarrow> soup \<Rightarrow> pystr set \<Rightarrow> pystr set" where
  "lineup_artists L page artists0 =
     (let artists1 = fold (\<lambda>link. add_name (get_text_strip L link)) (find_all page is_artist_link) artists0;
          artists2 = fold (\<lambda>tag artists.
                             if has_artists_class tag then add_name (get_text_strip L tag) artists
                             else artists)
                       (find_all page is_heading) artists1
      in case lineup_section page of
           None \<Rightarrow> artists2
         | Some sec \<Rightarrow> fold (add_item L) (find_all (contents sec) (has_name [lit ''li''])) artists2)"

text \<open>
  The three heuristics as the specification names them, each by itself: the names it
  yields are the non-empty stripped texts of the elements it selects.
\<close>

definition heuristic1 :: "pylib \<Rightarrow> soup \<Rightarrow> pystr set" where
  "heuristic1 L page = get_text_strip L ` set (find_all page is_artist_link) - {[]}"

definition heuristic2 :: "pylib \<Rightarrow> soup \<Rightarrow> pystr set" where
  "heuristic2 L page =
     get_text_strip L ` set (filter has_artists_class (find_all page is_heading)) - {[]}"

definition heuristic3 :: "pylib \<Rightarrow> soup \<Rightarrow> pystr set" where
  "heuristic3 L page =
     (case lineup_section page of
        None \<Rightarrow> {}
      | Some sec \<Rightarrow>
          get_text_strip L `
            set (List.map_filter (\<lambda>item. find_tag (contents item) (has_name [lit ''a'']))
                   (find_all (contents sec) (has_name [lit ''li'']))) - {[]})"

section \<open>The network, the clock and the output streams\<close>

text \<open>
  \<open>requests.get\<close> either returns a response, with its status code and the page parsed
  from its body, or raises a \<open>RequestException\<close> (carried here with its \<open>str\<close> and its
  \<open>repr\<close>). The answer to the \<open>n\<close>-th request of a run is given by \<open>responses\<close>.
  Everything the program does to the outside is appended to \<open>trace\<close>: the requests, the
  sleeps (in milliseconds), the text written to standard output and to the error stream,
  and the file written.
\<close>

datatype response = Response int soup | RequestException pystr pystr

datatype effect = Get pystr | Sleep nat | Stdout pystr | Stderr pystr | WriteFile pystr pystr

record world =
  responses :: "nat \<Rightarrow> pystr \<Rightarrow> response"
  write_error :: "pystr \<Rightarrow> pystr option"
  sent :: nat
  trace :: "effect list"

definition emit :: "effect \<Rightarrow> world \<Rightarrow> world" where
  "emit e w = w\<lparr>trace := trace w @ [e]\<rparr>"

text \<open>\<open>print(s)\<close>, \<open>print(s, end='\r')\<close> and \<open>print(s, file=sys.stderr)\<close>.\<close>

definition print :: "pystr \<Rightarrow> world \<Rightarrow> world" where
  "print s w = emit (Stdout (s @ [10])) w"

definition print_cr :: "pystr \<Rightarrow> world \<Rightarrow> world" where
  "print_cr s w = emit (Stdout (s @ [13])) w"

definition eprint :: "pystr \<Rightarrow> world \<Rightarrow> world" where
  "eprint s w = emit (Stderr (s @ [10])) w"

definition sleep :: "nat \<Rightarrow> world \<Rightarrow> world" where
  "sleep ms w = emit (Sleep ms) w"

definition requests_get :: "pystr \<Rightarrow> world \<Rightarrow> response \<times> world" where
  "requests_get url w = (responses w (sent w) url, emit (Get url) (w\<lparr>sent := Suc (sent w)\<rparr>))"

text \<open>An integer inside an f-string: its decimal digits, with a minus sign when negative.\<close>

function str_nat :: "nat \<Rightarrow> pystr" where
  "str_nat n = (if n < 10 then [48 + n] else str_nat (n div 10) @ [48 + n mod 10])"
  by pat_completeness auto
termination
  by (relation "measure id") auto

declare str_nat.simps [simp del]

definition str_int :: "int \<Rightarrow> pystr" where
  "str_int i = (if i < 0 then 45 # str_nat (nat (- i)) else str_nat (nat i))"

definition max_retries :: nat where
  "max_retries = 3"

section \<open>Event-URL extractor\<close>

definition is_event_card :: "pylib \<Rightarrow> node \<Rightarrow> bool" where
  "is_event_card L t =
     (has_name [lit ''div'', lit ''li'', lit ''article''] t
      \<and> class_matches (\<lambda>x. x \<noteq> [] \<and> (str_contains (lit ''event'') (py_lower L x)
                                     \<or> str_contains (lit ''card'') (py_lower L x))) t)"

definition is_link :: "node \<Rightarrow> bool" where
  "is_link t = (has_name [lit ''a''] t \<and> href_of t \<noteq> None)"

text \<open>Lines 44 to 54: the links inside the cards, then all the links of the page.\<close>

definition event_links :: "pylib \<Rightarrow> soup \<Rightarrow> node list" where
  "event_links L page =
     concat (map (\<lambda>card. find_all (contents card) is_link) (find_all page (is_event_card L)))
       @ find_all page is_link"

text \<open>The loop of lines 59 to 74; \<open>link['href']\<close> raises \<open>KeyError\<close> without the
  attribute and \<open>urljoin\<close> can raise \<open>ValueError\<close>, neither is caught.\<close>

fun links_loop :: "pylib \<Rightarrow> bool \<Rightarrow> node list \<Rightarrow> pystr list \<Rightarrow> world \<Rightarrow> error + (pystr list \<times> world)" where
  "links_loop L verbose [] event_urls w = Inr (event_urls, w)"
| "links_loop L verbose (link # rest) event_urls w =
     (case href_of link of
        None \<Rightarrow> Inl KeyError
      | Some href \<Rightarrow>
          if str_contains (lit ''/event/'') href then
            (let w1 = (if verbose then print (lit ''    Found event link: '' @ href) w else w)
             in case py_urljoin L BASE_URL href of
                  Inl e \<Rightarrow> Inl e
                | Inr joined \<Rightarrow>
                    (let full_url = clean_event_url joined
                     in links_loop L verbose rest
                          (if full_url \<notin> set event_urls then event_urls @ [full_url] else event_urls)
                          w1))
          else links_loop L verbose rest event_urls w)"

text \<open>Lines 38 to 77, the branch of status 200.\<close>

definition scan_listing :: "pylib \<Rightarrow> bool \<Rightarrow> int \<Rightarrow> soup \<Rightarrow> world \<Rightarrow> error + (pystr list \<times> world)" where
  "scan_listing L verbose status_code page w =
     (let w1 = (if verbose then print (lit ''  Status: '' @ str_int status_code) w else w);
          links = event_links L page;
          w2 = (if verbose then print (lit ''  Total links found: '' @ str_nat (length links)) w1 else w1)
      in case links_loop L verbose links [] w2 of
           Inl e \<Rightarrow> Inl e
         | Inr (event_urls, w3) \<Rightarrow>
             Inr (event_urls,
                  if verbose
                  then print (lit ''  Found '' @ str_nat (length event_urls) @ lit '' unique event URLs'') w3
                  else w3))"

definition failed_after :: pystr where
  "failed_after = lit ''  Failed after '' @ str_nat max_retries @ lit '' attempts''"

text \<open>The retry loop of lines 31 to 94 over the attempts that remain; when none remains
  line 96 returns \<open>event_urls\<close>, still empty.\<close>

fun page_attempts :: "pylib \<Rightarrow> pystr \<Rightarrow> bool \<Rightarrow> nat list \<Rightarrow> world \<Rightarrow> error + (pystr list \<times> world)" where
  "page_attempts L url verbose [] w = Inr ([], w)"
| "page_attempts L url verbose (attempt # rest) w =
     (let w1 = (if verbose
                then print (lit ''  Fetching: '' @ url @ lit '' (attempt '' @ str_nat (attempt + 1)
                              @ lit ''/'' @ str_nat max_retries @ lit '')'') w
                else w)
      in case requests_get url w1 of
           (Response status_code page, w2) \<Rightarrow>
             if status_code = 200 then scan_listing L verbose status_code page w2
             else
               (let w3 = eprint (lit ''  Status '' @ str_int status_code @ lit '' for '' @ url
                                   @ lit '', retrying in 5 seconds...'') w2
                in if attempt < max_retries - 1
                   then page_attempts L url verbose rest (sleep 5000 w3)
                   else page_attempts L url verbose rest (eprint failed_after w3))
         | (RequestException e_str e_repr, w2) \<Rightarrow>
             (let w3 = eprint (lit ''Error fetching '' @ url @ lit '': '' @ e_str) w2;
                  w4 = (if verbose then print (lit ''  Full error: '' @ e_repr) w3 else w3)
              in if attempt < max_retries - 1
                 then page_attempts L url verbose rest
                        (sleep 5000 (eprint (lit ''  Retrying in 5 seconds...'') w4))
                 else page_attempts L url verbose rest (eprint failed_after w4)))"

definition get_event_urls_from_page :: "pylib \<Rightarrow> pystr \<Rightarrow> bool \<Rightarrow> world \<Rightarrow> error + (pystr list \<times> world)" where
  "get_event_urls_from_page L url verbose w = page_attempts L url verbose [0..<max_retries] w"

section \<open>Artist extractor with its retries\<close>

text \<open>The retry loop of lines 113 to 167; line 169 returns \<open>artists\<close>, empty unless a
  page was parsed.\<close>

fun artist_attempts :: "pylib \<Rightarrow> pystr \<Rightarrow> bool \<Rightarrow> nat list \<Rightarrow> world \<Rightarrow> pystr set \<times> world" where
  "artist_attempts L event_url verbose [] w = ({}, w)"
| "artist_attempts L event_url verbose (attempt # rest) w =
     (case requests_get event_url w of
        (Response status_code page, w1) \<Rightarrow>
          if status_code = 200 then
            (let artists = lineup_artists L page {}
             in (artists,
                 if verbose \<and> artists = {}
                 then print ([10] @ lit ''  Warning: No artists found for '' @ event_url) w1
                 else w1))
          else
            (let w2 = (if verbose \<or> attempt = max_retries - 1
                       then eprint ([10] @ lit ''  Status '' @ str_int status_code @ lit '' for ''
                                      @ event_url @ lit '', retrying in 5 seconds...'') w1
                       else w1)
             in if attempt < max_retries - 1
                then artist_attempts L event_url verbose rest (sleep 5000 w2)
                else artist_attempts L event_url verbose rest (eprint failed_after w2))
      | (RequestException e_str e_repr, w1) \<Rightarrow>
          (let w2 = (if verbose \<or> attempt = max_retries - 1
                     then eprint ([10] @ lit ''Error fetching event '' @ event_url @ lit '': '' @ e_str) w1
                     else w1);
               w3 = (if verbose then print (lit ''  Full error: '' @ e_repr) w2 else w2)
           in if attempt < max_retries - 1
              then artist_attempts L event_url verbose rest
                     (sleep 5000 (if verbose then eprint (lit ''  Retrying in 5 seconds...'') w3 else w3))
              else artist_attempts L event_url verbose rest
                     (if verbose then eprint failed_after w3 else w3)))"

definition get_artists_from_event :: "pylib \<Rightarrow> pystr \<Rightarrow> bool \<Rightarrow> world \<Rightarrow> pystr set \<times> world" where
  "get_artists_from_event L event_url verbose w =
     artist_attempts L event_url verbose [0..<max_retries] w"

section \<open>Event-crawl orchestrator\<close>

definition main_url :: "pystr \<Rightarrow> pystr" where
  "main_url username = BASE_URL @ lit ''/user/'' @ username @ lit ''/events''"

definition year_url :: "pystr \<Rightarrow> int \<Rightarrow> pystr" where
  "year_url username year = BASE_URL @ lit ''/user/'' @ username @ lit ''/events/'' @ str_int year"

text \<open>The loop of lines 196 to 205 over the years that remain.\<close>

fun years_loop :: "pylib \<Rightarrow> pystr \<Rightarrow> bool \<Rightarrow> int list \<Rightarrow> pystr list \<Rightarrow> world \<Rightarrow> error + (pystr list \<times> world)" where
  "years_loop L username verbose [] all_event_urls w = Inr (all_event_urls, w)"
| "years_loop L username verbose (year # years) all_event_urls w =
     (case get_event_urls_from_page L (year_url username year) verbose
             (print (lit ''Fetching events from '' @ str_int year @ lit ''...'') w) of
        Inl e \<Rightarrow> Inl e
      | Inr (event_urls, w1) \<Rightarrow>
          (let new_urls = filter (\<lambda>url. url \<notin> set all_event_urls) event_urls
           in years_loop L username verbose years (all_event_urls @ new_urls)
                (sleep 1000
                   (print (lit ''Found '' @ str_nat (length new_urls) @ lit '' new events in ''
                             @ str_int year) w1))))"

text \<open>\<open>get_all_event_urls\<close> (lines 172 to 207); \<open>range(start_year, end_year + 1)\<close> is
  the list of the integers from \<open>start_year\<close> to \<open>end_year\<close>, both included.\<close>

definition get_all_event_urls :: "pylib \<Rightarrow> pystr \<Rightarrow> int \<Rightarrow> int \<Rightarrow> bool \<Rightarrow> world \<Rightarrow> error + (pystr list \<times> world)" where
  "get_all_event_urls L username start_year end_year verbose w =
     (case get_event_urls_from_page L (main_url username) verbose
             (print (lit ''Fetching events from main page...'') w) of
        Inl e \<Rightarrow> Inl e
      | Inr (event_urls, w1) \<Rightarrow>
          years_loop L username verbose [start_year..end_year] ([] @ event_urls)
            (sleep 1000
               (print (lit ''Found '' @ str_nat (length event_urls) @ lit '' events on main page'') w1)))"

section \<open>The main function\<close>

record args =
  arg_username :: pystr
  arg_start_year :: int
  arg_end_year :: int
  arg_ignore_the :: bool
  arg_letter_headings :: bool
  arg_verbose :: bool
  arg_output :: "pystr option"

text \<open>How \<open>main\<close> ends: it returns, or \<open>sys.exit\<close> is called with a status. An
  exception that nothing catches is the left summand of the result.\<close>

datatype outcome = Returned | SystemExit int

definition processing :: "nat \<Rightarrow> nat \<Rightarrow> pystr" where
  "processing i n = lit ''Processing event '' @ str_nat i @ lit ''/'' @ str_nat n"

text \<open>The loop of lines 333 to 347; \<open>i\<close> counts from 1 and \<open>n\<close> is \<open>len(event_urls)\<close>.\<close>

fun first_loop :: "pylib \<Rightarrow> bool \<Rightarrow> nat \<Rightarrow> nat \<Rightarrow> pystr list \<Rightarrow> pystr set \<Rightarrow> nat \<Rightarrow> world \<Rightarrow> pystr set \<times> nat \<times> world" where
  "first_loop L verbose n i [] all_artists failed_count w = (all_artists, failed_count, w)"
| "first_loop L verbose n i (event_url # rest) all_artists failed_count w =
     (let w1 = (if \<not> verbose then print_cr (processing i n @ lit ''...'') w
                else print ([10] @ processing i n @ lit '': '' @ event_url) w)
      in case get_artists_from_event L event_url verbose w1 of
           (artists, w2) \<Rightarrow>
             if artists \<noteq> {} then
               first_loop L verbose n (i + 1) rest (all_artists \<union> artists) failed_count
                 (sleep 500
                    (if verbose
                     then print (lit ''  Found '' @ str_nat (card artists) @ lit '' artist(s): ''
                                   @ join (lit '', '') (take 3 (py_set_iter L artists))
                                   @ (if card artists > 3 then lit ''...'' else [])) w2
                     else w2))
             else first_loop L verbose n (i + 1) rest all_artists (failed_count + 1) (sleep 500 w2))"

text \<open>The loop of lines 355 to 359.\<close>

fun second_loop :: "pylib \<Rightarrow> nat \<Rightarrow> nat \<Rightarrow> pystr list \<Rightarrow> pystr set \<Rightarrow> world \<Rightarrow> pystr set \<times> world" where
  "second_loop L n i [] all_artists w = (all_artists, w)"
| "second_loop L n i (event_url # rest) all_artists w =
     (case get_artists_from_event L event_url False (print_cr (processing i n @ lit ''...'') w) of
        (artists, w1) \<Rightarrow> second_loop L n (i + 1) rest (all_artists \<union> artists) (sleep 500 w1))"

text \<open>Lines 329 to 361.\<close>

definition harvest :: "pylib \<Rightarrow> bool \<Rightarrow> pystr list \<Rightarrow> world \<Rightarrow> pystr set \<times> world" where
  "harvest L verbose event_urls w =
     (case first_loop L verbose (length event_urls) 1 event_urls {} 0
             (print ([10] @ lit ''Extracting artists from events...'') w) of
        (all_artists, failed_count, w1) \<Rightarrow>
          (let w2 = print [] w1;
               w3 = (if verbose
                     then print (lit ''Total unique artists: '' @ str_nat (card all_artists))
                            (print (lit ''Events with no artists found: '' @ str_nat failed_count)
                               (print ([10] @ lit ''Events processed: '' @ str_nat (length event_urls)) w2))
                     else w2)
           in case second_loop L (length event_urls) 1 event_urls all_artists w3 of
                (all_artists', w4) \<Rightarrow> (all_artists', print [] w4)))"

text \<open>Lines 363 to 386; \<open>if args.output\<close> holds for a name that is given and not empty.\<close>

definition report :: "pylib \<Rightarrow> args \<Rightarrow> pystr set \<Rightarrow> world \<Rightarrow> error + (outcome \<times> world)" where
  "report L a all_artists w =
     (let sorted_artists = sort_artists L all_artists (arg_ignore_the a);
          header = lit ''Artists ('' @ str_nat (length sorted_artists) @ lit '' unique):''
      in case (if arg_letter_headings a
               then (case format_output_with_headings L sorted_artists (arg_ignore_the a) of
                       Inl e \<Rightarrow> Inl e
                     | Inr lines \<Rightarrow> Inr ([header] @ lines))
               else Inr ([header] @ [replicate 50 45] @ sorted_artists)) of
           Inl e \<Rightarrow> Inl e
         | Inr output_lines \<Rightarrow>
             (case arg_output a of
                None \<Rightarrow> Inr (Returned, fold print output_lines w)
              | Some path \<Rightarrow>
                  if path = [] then Inr (Returned, fold print output_lines w)
                  else (case write_error w path of
                          None \<Rightarrow>
                            Inr (Returned,
                                 print ([10] @ lit ''Results written to: '' @ path)
                                   (emit (WriteFile path (join [10] output_lines @ [10])) w))
                        | Some e \<Rightarrow>
                            Inr (SystemExit 1, eprint (lit ''Error writing to file: '' @ e) w))))"

text \<open>Lines 317 to 322.\<close>

definition show_urls :: "pystr list \<Rightarrow> world \<Rightarrow> world" where
  "show_urls event_urls w =
     (let w1 = fold (\<lambda>url. print (lit ''  '' @ url)) (take 10 event_urls)
                 (print ([10] @ lit ''Event URLs:'') w)
      in if length event_urls > 10
         then print (lit ''  ... and '' @ str_nat (length event_urls - 10) @ lit '' more'') w1
         else w1)"

text \<open>Lines 309 to 311.\<close>

definition banner :: "args \<Rightarrow> world \<Rightarrow> world" where
  "banner a w =
     print (replicate 50 45)
       (print (lit ''Searching from '' @ str_int (arg_start_year a) @ lit '' to ''
                 @ str_int (arg_end_year a))
          (print (lit ''Scraping events for user: '' @ arg_username a) w))"

definition main :: "pylib \<Rightarrow> args \<Rightarrow> world \<Rightarrow> error + (outcome \<times> world)" where
  "main L a w =
     (case get_all_event_urls L (arg_username a) (arg_start_year a) (arg_end_year a)
             (arg_verbose a) (banner a w) of
        Inl e \<Rightarrow> Inl e
      | Inr (event_urls, w1) \<Rightarrow>
          (let w2 = print ([10] @ lit ''Total events found: '' @ str_nat (length event_urls)) w1;
               w3 = (if arg_verbose a then show_urls event_urls w2 else w2)
           in if event_urls = []
              then Inr (SystemExit 0, print (lit ''No events found for user: '' @ arg_username a) w3)
              else (case harvest L (arg_verbose a) event_urls w3 of
                      (all_artists, w4) \<Rightarrow> report L a all_artists w4)))"

section \<open>Vocabulary of the properties and example inputs\<close>

text \<open>What a call returned (nothing when it raised) and the trace it left.\<close>

definition returned :: "error + ('a \<times> world) \<Rightarrow> 'a option" where
  "returned r = (case r of Inl e \<Rightarrow> None | Inr (x, w) \<Rightarrow> Some x)"

definition effects :: "error + ('a \<times> world) \<Rightarrow> effect list" where
  "effects r = (case r of Inl e \<Rightarrow> [] | Inr (x, w) \<Rightarrow> trace w)"

fun is_get :: "effect \<Rightarrow> bool" where
  "is_get (Get url) = True"
| "is_get e = False"

fun is_get_or_sleep :: "effect \<Rightarrow> bool" where
  "is_get_or_sleep (Get url) = True"
| "is_get_or_sleep (Sleep ms) = True"
| "is_get_or_sleep e = False"

fun is_stderr :: "effect \<Rightarrow> bool" where
  "is_stderr (Stderr s) = True"
| "is_stderr e = False"

fun is_stdout :: "effect \<Rightarrow> bool" where
  "is_stdout (Stdout s) = True"
| "is_stdout e = False"

text \<open>A fetch fails when the status is not 200 or the request raises.\<close>

fun failed :: "response \<Rightarrow> bool" where
  "failed (Response status_code page) = (status_code \<noteq> 200)"
| "failed (RequestException e_str e_repr) = True"

text \<open>The world after \<open>n\<close> more requests and the further effects \<open>new\<close>.\<close>

definition advance :: "nat \<Rightarrow> effect list \<Rightarrow> world \<Rightarrow> world" where
  "advance n new w = w\<lparr>sent := sent w + n, trace := trace w @ new\<rparr>"

text \<open>A world reached from another by more requests and effects, nothing else changed.\<close>

definition later :: "world \<Rightarrow> world \<Rightarrow> bool" where
  "later w w' = (\<exists>n new. w' = advance n new w)"

text \<open>A URL that ends with \<open>/lineup\<close> and has no question mark in it.\<close>

definition canonical :: "pystr \<Rightarrow> bool" where
  "canonical u = (endswith u (lit ''/lineup'') \<and> 63 \<notin> set u)"

text \<open>A list continued by the elements of another that it does not have yet, each where
  it is first seen.\<close>

fun first_seen :: "'a list \<Rightarrow> 'a list \<Rightarrow> 'a list" where
  "first_seen seen [] = seen"
| "first_seen seen (x # xs) = first_seen (if x \<in> set seen then seen else seen @ [x]) xs"

text \<open>The name Edith Piaf written with its accented capital, U+00C9.\<close>

definition edith_piaf :: pystr where
  "edith_piaf = [201] @ lit ''dith Piaf''"

text \<open>The grouped output in which all 27 buckets are empty.\<close>

definition all_none :: "pystr list" where
  "all_none = symbols_heading # none_line
     # concat (map (\<lambda>letter. [letter_heading letter, none_line]) (lit ''ABCDEFGHIJKLMNOPQRSTUVWXYZ''))"

text \<open>
  A small site: the main listing of user \<open>bob\<close> links event 123 twice with different
  query strings, the listing of 2024 links events 123 and 456, the lineup of event 123 has
  one artist link, that of event 456 a lineup list; every other address answers 404.
\<close>

definition event_123 :: pystr where
  "event_123 = lit ''https://www.last.fm/event/123/lineup''"

definition event_456 :: pystr where
  "event_456 = lit ''https://www.last.fm/event/456/lineup''"

definition main_listing :: soup where
  "main_listing =
     [Tag (lit ''div'') (Some [lit ''events-list'']) None
        [Tag (lit ''a'') None (Some (lit ''/event/123?from=a'')) [NavigableString (lit ''One'')],
         Tag (lit ''a'') None (Some (lit ''/event/123/going?from=b'')) [NavigableString (lit ''One'')]]]"

definition year_listing :: soup where
  "year_listing =
     [Tag (lit ''ul'') None None
        [Tag (lit ''li'') (Some [lit ''event-card'']) None
           [Tag (lit ''a'') None (Some (lit ''https://www.last.fm/event/456/attendance'')) []],
         Tag (lit ''li'') None None
           [Tag (lit ''a'') None (Some (lit ''/event/123/lineup'')) []],
         Tag (lit ''li'') None None
           [Tag (lit ''a'') None (Some (lit ''/user/bob'')) []]]]"

definition lineup_123 :: soup where
  "lineup_123 =
     [Tag (lit ''a'') (Some [lit ''link-block-target'']) None [NavigableString (lit '' Artist A '')]]"

definition lineup_456 :: soup where
  "lineup_456 =
     [Tag (lit ''a'') (Some [lit ''link-block-target'']) None [NavigableString (lit ''Artist A'')],
      Tag (lit ''div'') (Some [lit ''lineup'']) None
        [Tag (lit ''li'') None None
           [Tag (lit ''a'') None None [NavigableString (lit ''Artist A'')]],
         Tag (lit ''li'') None None
           [Tag (lit ''a'') None None [NavigableString (lit ''Artist B'')]],
         Tag (lit ''li'') None None
           [Tag (lit ''a'') None None [NavigableString (lit ''  '')]]]]"

definition example_site :: "pystr \<Rightarrow> response" where
  "example_site url =
     (if url = lit ''https://www.last.fm/user/bob/events'' then Response 200 main_listing
      else if url = lit ''https://www.last.fm/user/bob/events/2024'' then Response 200 year_listing
      else if url = event_123 then Response 200 lineup_123
      else if url = event_456 then Response 200 lineup_456
      else Response 404 [])"

definition example_world :: world where
  "example_world = \<lparr> responses = (\<lambda>n. example_site), write_error = (\<lambda>path. None), sent = 0, trace = [] \<rparr>"

definition example_args :: args where
  "example_args = \<lparr> arg_username = lit ''bob'', arg_start_year = 2024, arg_end_year = 2024,
     arg_ignore_the = False, arg_letter_headings = False, arg_verbose = False, arg_output = None \<rparr>"

text \<open>The same run for a user the site does not know: every listing answers 404.\<close>

definition unknown_args :: args where
  "unknown_args = example_args \<lparr> arg_username := lit ''nobody'' \<rparr>"

section \<open>Strings\<close>

lemma lit_simps:
  "lit [] = []" "lit (c # cs) = of_char c # lit cs"
  by (simp_all add: lit_def)

lemma endswith_last: "endswith s p \<Longrightarrow> p \<noteq> [] \<Longrightarrow> last s = last p"
  by (metis endswith_def last_drop length_0_conv diff_less length_greater_0_conv leD)

lemma endswith_append: "endswith (s @ p) p"
  by (simp add: endswith_def)

section \<open>The formatter\<close>

lemma check_char_total: "artist \<noteq> [] \<Longrightarrow> \<exists>ch. check_char L ig artist = Inr ch"
  by (simp add: check_char_def getitem_def)

lemma group_letter_total: "artist \<noteq> [] \<Longrightarrow> \<exists>g. group_letter L ig artist = Inr g"
  by (simp add: group_letter_def getitem_def)

lemma numbers_symbols_loop_total:
  "\<forall>a \<in> set xs. a \<noteq> [] \<Longrightarrow> \<exists>r. numbers_symbols_loop L ig xs acc = Inr r"
proof (induction xs arbitrary: acc)
  case Nil
  then show ?case by simp
next
  case (Cons a xs)
  then obtain ch where "check_char L ig a = Inr ch"
    using check_char_total [of a L ig] by auto
  with Cons show ?case by simp
qed

lemma artists_for_letter_loop_total:
  "\<forall>a \<in> set xs. a \<noteq> [] \<Longrightarrow> \<exists>r. artists_for_letter_loop L ig letter xs acc = Inr r"
proof (induction xs arbitrary: acc)
  case Nil
  then show ?case by simp
next
  case (Cons a xs)
  then obtain g where "group_letter L ig a = Inr g"
    using group_letter_total [of a L ig] by auto
  with Cons show ?case by simp
qed

lemma letters_loop_total:
  "\<forall>a \<in> set xs. a \<noteq> [] \<Longrightarrow> \<exists>r. letters_loop L ig xs letters out = Inr r"
proof (induction letters arbitrary: out)
  case Nil
  then show ?case by simp
next
  case (Cons l letters)
  from Cons.prems obtain r where "artists_for_letter_loop L ig l xs [] = Inr r"
    using artists_for_letter_loop_total by blast
  with Cons show ?case by simp
qed

text \<open>
  C10. For every list of non-empty names \<open>format_output_with_headings\<close> returns its lines:
  neither \<open>artist[0]\<close> nor \<open>artist[4]\<close> is read out of range, the second being read only
  under the guard \<open>len(artist) > 4\<close>. (On an empty name \<open>artist[0]\<close> raises, see
  \<open>empty_name_raises\<close>.)
\<close>

theorem format_output_with_headings_total:
  assumes "\<forall>artist \<in> set sorted_artists. artist \<noteq> []"
  shows "\<exists>output_lines. format_output_with_headings L sorted_artists ignore_the = Inr output_lines"
proof -
  from assms obtain ns where "numbers_symbols_loop L ignore_the sorted_artists [] = Inr ns"
    using numbers_symbols_loop_total by blast
  with assms show ?thesis
    by (simp add: format_output_with_headings_def letters_loop_total)
qed

theorem format_output_with_headings_total_witness:
  "[] \<notin> set [lit ''ABBA'', lit ''The '', lit ''the Beatles'']
   \<and> (\<exists>output_lines. format_output_with_headings cpython_latin1
          [lit ''ABBA'', lit ''The '', lit ''the Beatles''] True = Inr output_lines)"
proof (rule conjI)
  show "[] \<notin> set [lit ''ABBA'', lit ''The '', lit ''the Beatles'']"
    by (simp add: lit_simps)
  then have h: "\<forall>artist \<in> set [lit ''ABBA'', lit ''The '', lit ''the Beatles'']. artist \<noteq> []"
    by metis
  show "\<exists>output_lines. format_output_with_headings cpython_latin1
          [lit ''ABBA'', lit ''The '', lit ''the Beatles''] True = Inr output_lines"
    by (rule format_output_with_headings_total [OF h])
qed

lemma empty_name_raises: "format_output_with_headings L ([] # rest) ignore_the = Inl IndexError"
  by (simp add: format_output_with_headings_def check_char_def getitem_def)

section \<open>Canonical event URLs\<close>

lemma strip_suffix_append: "p \<noteq> [] \<Longrightarrow> strip_suffix (s @ p) p = s"
  by (simp add: strip_suffix_def endswith_append drop_last_def)

lemma strip_suffix_other: "last s \<noteq> last p \<Longrightarrow> p \<noteq> [] \<Longrightarrow> strip_suffix s p = s"
  using endswith_last by (auto simp: strip_suffix_def)

lemma set_strip_suffix: "set (strip_suffix s p) \<subseteq> set s"
  by (auto simp: strip_suffix_def drop_last_def dest: in_set_takeD)

lemma set_foldl_strip_suffix: "set (foldl strip_suffix s ps) \<subseteq> set s"
proof (induction ps arbitrary: s)
  case Nil
  then show ?case by simp
next
  case (Cons p ps)
  then show ?case using set_strip_suffix by (metis foldl_Cons subset_trans)
qed

lemma strip_lineup: "foldl strip_suffix (s @ lit ''/lineup'') known_suffixes = s"
proof -
  have l: "last (s @ lit ''/lineup'') = 112" by (simp add: lit_simps)
  have 1: "strip_suffix (s @ lit ''/lineup'') (lit ''/attendance'') = s @ lit ''/lineup''"
    by (rule strip_suffix_other) (simp_all add: l, simp_all add: lit_simps)
  have 2: "strip_suffix (s @ lit ''/lineup'') (lit ''/going'') = s @ lit ''/lineup''"
    by (rule strip_suffix_other) (simp_all add: l, simp_all add: lit_simps)
  have 3: "strip_suffix (s @ lit ''/lineup'') (lit ''/interested'') = s @ lit ''/lineup''"
    by (rule strip_suffix_other) (simp_all add: l, simp_all add: lit_simps)
  have 4: "strip_suffix (s @ lit ''/lineup'') (lit ''/lineup'') = s"
    by (rule strip_suffix_append) (simp add: lit_simps)
  show ?thesis by (simp add: known_suffixes_def 1 2 3 4)
qed

lemma no_query_clean: "63 \<notin> set (clean_event_url u)"
proof -
  have "63 \<notin> set (takeWhile (\<lambda>c. c \<noteq> 63) u)"
    by (auto dest: set_takeWhileD)
  then have "63 \<notin> set (foldl strip_suffix (takeWhile (\<lambda>c. c \<noteq> 63) u) known_suffixes)"
    using set_foldl_strip_suffix by blast
  then show ?thesis by (simp add: clean_event_url_def lit_simps)
qed

lemma takeWhile_clean: "takeWhile (\<lambda>c. c \<noteq> 63) (clean_event_url u) = clean_event_url u"
  using no_query_clean [of u] by (simp add: takeWhile_eq_all_conv) metis

lemma endswith_clean: "endswith (clean_event_url u) (lit ''/lineup'')"
  by (simp add: clean_event_url_def endswith_append)

text \<open>
  C4. The canonicalisation of lines 66 to 72 is idempotent: applied to a URL it has
  produced it returns that URL. The result ends with the one \<open>/lineup\<close> that was appended;
  run again, the loop strips exactly that suffix, reaching the same stem as before, and
  one suffix is appended again, so the second pass never yields the first result with a
  further \<open>/lineup\<close>.
\<close>

theorem clean_event_url_idempotent:
  "clean_event_url (clean_event_url u) = clean_event_url u
   \<and> endswith (clean_event_url u) (lit ''/lineup'')
   \<and> foldl strip_suffix (clean_event_url u) known_suffixes
       = foldl strip_suffix (takeWhile (\<lambda>c. c \<noteq> 63) u) known_suffixes
   \<and> clean_event_url (clean_event_url u) \<noteq> clean_event_url u @ lit ''/lineup''"
proof -
  let ?core = "foldl strip_suffix (takeWhile (\<lambda>c. c \<noteq> 63) u) known_suffixes"
  have c: "clean_event_url u = ?core @ lit ''/lineup''"
    by (simp add: clean_event_url_def)
  have s: "foldl strip_suffix (clean_event_url u) known_suffixes = ?core"
    unfolding c by (rule strip_lineup)
  have i: "clean_event_url (clean_event_url u) = clean_event_url u"
  proof -
    have "clean_event_url (clean_event_url u)
            = foldl strip_suffix (takeWhile (\<lambda>c. c \<noteq> 63) (clean_event_url u)) known_suffixes
                @ lit ''/lineup''"
      by (rule clean_event_url_def)
    also have "\<dots> = ?core @ lit ''/lineup''"
      by (simp only: takeWhile_clean s)
    finally show ?thesis by (simp only: c)
  qed
  have d: "clean_event_url (clean_event_url u) \<noteq> clean_event_url u @ lit ''/lineup''"
    unfolding i by (simp add: lit_simps)
  from i endswith_clean s d show ?thesis by blast
qed

theorem clean_event_url_idempotent_witness:
  "clean_event_url (clean_event_url (lit ''https://www.last.fm/event/123/going?x=1''))
     = clean_event_url (lit ''https://www.last.fm/event/123/going?x=1'')
   \<and> clean_event_url (lit ''https://www.last.fm/event/123/going?x=1'')
     = lit ''https://www.last.fm/event/123/lineup''"
proof (rule conjI)
  show "clean_event_url (clean_event_url (lit ''https://www.last.fm/event/123/going?x=1''))
     = clean_event_url (lit ''https://www.last.fm/event/123/going?x=1'')"
    using clean_event_url_idempotent [of "lit ''https://www.last.fm/event/123/going?x=1''"]
    by (rule conjunct1)
  show "clean_event_url (lit ''https://www.last.fm/event/123/going?x=1'')
     = lit ''https://www.last.fm/event/123/lineup''"
    by code_simp
qed

section \<open>Names outside A to Z in the grouped output\<close>

text \<open>
  C1. The grouped formatter is meant to put every name in exactly one of the 27 buckets,
  and line 252 says of the first bucket: not A to Z, so a number or a symbol. The test of
  line 253 is \<open>isalpha\<close>, which also holds for letters outside A to Z. A name that
  starts with such a letter is in no bucket: for the single name Edith Piaf with its
  accented capital the output is the 27 headings, each followed by \<open>(none)\<close>, and the
  name is not in it.
\<close>

theorem accented_name_in_no_bucket:
  "format_output_with_headings cpython_latin1 [edith_piaf] False = Inr all_none
   \<and> edith_piaf \<notin> set all_none \<and> count_list all_none none_line = 27"
  by code_simp

section \<open>Retries\<close>

lemma advance_sel:
  "responses (advance n new w) = responses w"
  "write_error (advance n new w) = write_error w"
  "sent (advance n new w) = sent w + n"
  "trace (advance n new w) = trace w @ new"
  by (simp_all add: advance_def)

lemma advance_advance: "advance m b (advance n a w) = advance (n + m) (a @ b) w"
  by (simp add: advance_def)

lemma advance_0: "advance 0 [] w = w"
  by (simp add: advance_def)

lemma emit_advance: "emit e w = advance 0 [e] w"
  by (simp add: emit_def advance_def)

lemma requests_get_advance: "requests_get url w = (responses w (sent w) url, advance 1 [Get url] w)"
  by (simp add: requests_get_def emit_def advance_def)

lemmas io_defs = print_def print_cr_def eprint_def sleep_def emit_advance requests_get_advance
  advance_advance advance_sel

lemma attempts_eq: "[0..<max_retries] = [0, 1, 2]"
  by (simp add: max_retries_def upt_rec)

lemma page_attempt_fails:
  assumes "failed (responses w (sent w) url)"
  shows "\<exists>new. page_attempts L url verbose (attempt # rest) w
                 = page_attempts L url verbose rest (advance 1 new w)
           \<and> filter is_get_or_sleep new
                 = Get url # (if attempt < max_retries - 1 then [Sleep 5000] else [])
           \<and> list_ex is_stderr new"
proof (cases "responses w (sent w) url")
  case (Response status_code page)
  with assms have "status_code \<noteq> 200" by simp
  with Response show ?thesis
    by (cases verbose; cases "attempt < max_retries - 1")
       (simp_all add: io_defs Let_def, (intro exI conjI, rule refl, simp_all)+)
next
  case (RequestException e_str e_repr)
  then show ?thesis
    by (cases verbose; cases "attempt < max_retries - 1")
       (simp_all add: io_defs Let_def, (intro exI conjI, rule refl, simp_all)+)
qed

lemma artist_attempt_fails:
  assumes "failed (responses w (sent w) url)"
  shows "\<exists>new. artist_attempts L url verbose (attempt # rest) w
                 = artist_attempts L url verbose rest (advance 1 new w)
           \<and> filter is_get_or_sleep new
                 = Get url # (if attempt < max_retries - 1 then [Sleep 5000] else [])
           \<and> (attempt = max_retries - 1 \<longrightarrow> list_ex is_stderr new)"
proof (cases "responses w (sent w) url")
  case (Response status_code page)
  with assms have "status_code \<noteq> 200" by simp
  with Response show ?thesis
    by (cases verbose; cases "attempt < max_retries - 1"; cases "attempt = max_retries - 1")
       (simp_all add: io_defs Let_def, (intro exI conjI, rule refl, simp_all)+)
next
  case (RequestException e_str e_repr)
  then show ?thesis
    by (cases verbose; cases "attempt < max_retries - 1"; cases "attempt = max_retries - 1")
       (simp_all add: io_defs Let_def, (intro exI conjI, rule refl, simp_all)+)
qed

lemma page_retry_exhaustion:
  assumes f0: "failed (responses w (sent w) url)"
    and f1: "failed (responses w (sent w + 1) url)"
    and f2: "failed (responses w (sent w + 2) url)"
  shows "\<exists>new. get_event_urls_from_page L url verbose w = Inr ([], advance 3 new w)
           \<and> filter is_get_or_sleep new = [Get url, Sleep 5000, Get url, Sleep 5000, Get url]
           \<and> list_ex is_stderr new"
proof -
  obtain n0 where s0: "page_attempts L url verbose [0, 1, 2] w
        = page_attempts L url verbose [1, 2] (advance 1 n0 w)"
    and g0: "filter is_get_or_sleep n0 = [Get url, Sleep 5000]" and e0: "list_ex is_stderr n0"
    using page_attempt_fails [OF f0, of L verbose 0 "[1, 2]"] by (auto simp: max_retries_def)
  have "failed (responses (advance 1 n0 w) (sent (advance 1 n0 w)) url)"
    using f1 by (simp add: advance_sel)
  then obtain n1 where s1: "page_attempts L url verbose [1, 2] (advance 1 n0 w)
        = page_attempts L url verbose [2] (advance 1 n1 (advance 1 n0 w))"
    and g1: "filter is_get_or_sleep n1 = [Get url, Sleep 5000]"
    using page_attempt_fails [of "advance 1 n0 w" url L verbose 1 "[2]"] by (auto simp: max_retries_def)
  have "failed (responses (advance 1 n1 (advance 1 n0 w)) (sent (advance 1 n1 (advance 1 n0 w))) url)"
    using f2 by (simp add: advance_sel add.assoc)
  then obtain n2 where s2: "page_attempts L url verbose [2] (advance 1 n1 (advance 1 n0 w))
        = page_attempts L url verbose [] (advance 1 n2 (advance 1 n1 (advance 1 n0 w)))"
    and g2: "filter is_get_or_sleep n2 = [Get url]"
    using page_attempt_fails [of "advance 1 n1 (advance 1 n0 w)" url L verbose 2 "[]"]
    by (auto simp: max_retries_def)
  have "get_event_urls_from_page L url verbose w = page_attempts L url verbose [0, 1, 2] w"
    by (simp only: get_event_urls_from_page_def attempts_eq)
  also have "\<dots> = page_attempts L url verbose [] (advance 1 n2 (advance 1 n1 (advance 1 n0 w)))"
    by (simp only: s0 s1 s2)
  also have "\<dots> = Inr ([], advance 3 (n0 @ n1 @ n2) w)"
    by (simp add: advance_advance numeral_3_eq_3)
  finally have "get_event_urls_from_page L url verbose w = Inr ([], advance 3 (n0 @ n1 @ n2) w)" .
  moreover have "filter is_get_or_sleep (n0 @ n1 @ n2) = [Get url, Sleep 5000, Get url, Sleep 5000, Get url]"
    by (simp add: g0 g1 g2)
  moreover have "list_ex is_stderr (n0 @ n1 @ n2)"
    using e0 by (auto simp: list_ex_iff)
  ultimately show ?thesis by blast
qed

lemma artist_retry_exhaustion:
  assumes f0: "failed (responses w (sent w) url)"
    and f1: "failed (responses w (sent w + 1) url)"
    and f2: "failed (responses w (sent w + 2) url)"
  shows "\<exists>new. get_artists_from_event L url verbose w = ({}, advance 3 new w)
           \<and> filter is_get_or_sleep new = [Get url, Sleep 5000, Get url, Sleep 5000, Get url]
           \<and> list_ex is_stderr new"
proof -
  obtain n0 where s0: "artist_attempts L url verbose [0, 1, 2] w
        = artist_attempts L url verbose [1, 2] (advance 1 n0 w)"
    and g0: "filter is_get_or_sleep n0 = [Get url, Sleep 5000]"
    using artist_attempt_fails [OF f0, of L verbose 0 "[1, 2]"] by (auto simp: max_retries_def)
  have "failed (responses (advance 1 n0 w) (sent (advance 1 n0 w)) url)"
    using f1 by (simp add: advance_sel)
  then obtain n1 where s1: "artist_attempts L url verbose [1, 2] (advance 1 n0 w)
        = artist_attempts L url verbose [2] (advance 1 n1 (advance 1 n0 w))"
    and g1: "filter is_get_or_sleep n1 = [Get url, Sleep 5000]"
    using artist_attempt_fails [of "advance 1 n0 w" url L verbose 1 "[2]"] by (auto simp: max_retries_def)
  have "failed (responses (advance 1 n1 (advance 1 n0 w)) (sent (advance 1 n1 (advance 1 n0 w))) url)"
    using f2 by (simp add: advance_sel add.assoc)
  then obtain n2 where s2: "artist_attempts L url verbose [2] (advance 1 n1 (advance 1 n0 w))
        = artist_attempts L url verbose [] (advance 1 n2 (advance 1 n1 (advance 1 n0 w)))"
    and g2: "filter is_get_or_sleep n2 = [Get url]" and e2: "list_ex is_stderr n2"
    using artist_attempt_fails [of "advance 1 n1 (advance 1 n0 w)" url L verbose 2 "[]"]
    by (auto simp: max_retries_def)
  have "get_artists_from_event L url verbose w = artist_attempts L url verbose [0, 1, 2] w"
    by (simp only: get_artists_from_event_def attempts_eq)
  also have "\<dots> = artist_attempts L url verbose [] (advance 1 n2 (advance 1 n1 (advance 1 n0 w)))"
    by (simp only: s0 s1 s2)
  also have "\<dots> = ({}, advance 3 (n0 @ n1 @ n2) w)"
    by (simp add: advance_advance numeral_3_eq_3)
  finally have "get_artists_from_event L url verbose w = ({}, advance 3 (n0 @ n1 @ n2) w)" .
  moreover have "filter is_get_or_sleep (n0 @ n1 @ n2) = [Get url, Sleep 5000, Get url, Sleep 5000, Get url]"
    by (simp add: g0 g1 g2)
  moreover have "list_ex is_stderr (n0 @ n1 @ n2)"
    using e2 by (auto simp: list_ex_iff)
  ultimately show ?thesis by blast
qed

text \<open>
  C5. When the three requests a fetch can make all fail (a status other than 200, or a
  \<open>RequestException\<close>), \<open>get_event_urls_from_page\<close> returns the empty list and
  \<open>get_artists_from_event\<close> the empty set, neither raises, exactly three requests were
  sent with a sleep of 5 seconds after the first and after the second and none after the
  third, and something was written to the error stream.
\<close>

theorem retry_exhaustion:
  assumes "failed (responses w (sent w) url)"
    and "failed (responses w (sent w + 1) url)"
    and "failed (responses w (sent w + 2) url)"
  shows "(\<exists>new. get_event_urls_from_page L url verbose w = Inr ([], advance 3 new w)
            \<and> filter is_get_or_sleep new = [Get url, Sleep 5000, Get url, Sleep 5000, Get url]
            \<and> list_ex is_stderr new)
       \<and> (\<exists>new. get_artists_from_event L url verbose w = ({}, advance 3 new w)
            \<and> filter is_get_or_sleep new = [Get url, Sleep 5000, Get url, Sleep 5000, Get url]
            \<and> list_ex is_stderr new)"
  using page_retry_exhaustion [OF assms] artist_retry_exhaustion [OF assms] by blast

theorem retry_exhaustion_witness:
  "failed (responses example_world (sent example_world) (lit ''https://www.last.fm/event/9/lineup''))
   \<and> (\<exists>new. get_artists_from_event cpython_latin1 (lit ''https://www.last.fm/event/9/lineup'') False example_world
               = ({}, advance 3 new example_world)
          \<and> filter is_get_or_sleep new
               = [Get (lit ''https://www.last.fm/event/9/lineup''), Sleep 5000,
                  Get (lit ''https://www.last.fm/event/9/lineup''), Sleep 5000,
                  Get (lit ''https://www.last.fm/event/9/lineup'')]
          \<and> list_ex is_stderr new)"
proof (rule conjI)
  have f: "failed (responses example_world n (lit ''https://www.last.fm/event/9/lineup''))" for n
    by (simp add: example_world_def example_site_def event_123_def event_456_def lit_simps)
  show "failed (responses example_world (sent example_world) (lit ''https://www.last.fm/event/9/lineup''))"
    by (rule f)
  show "\<exists>new. get_artists_from_event cpython_latin1 (lit ''https://www.last.fm/event/9/lineup'') False example_world
               = ({}, advance 3 new example_world)
          \<and> filter is_get_or_sleep new
               = [Get (lit ''https://www.last.fm/event/9/lineup''), Sleep 5000,
                  Get (lit ''https://www.last.fm/event/9/lineup''), Sleep 5000,
                  Get (lit ''https://www.last.fm/event/9/lineup'')]
          \<and> list_ex is_stderr new"
    using retry_exhaustion [OF f f f, of cpython_latin1 False] by (rule conjunct2)
qed

section \<open>Artist extraction\<close>

lemma fold_add_name: "fold (\<lambda>t. add_name (f t)) ts A = A \<union> (f ` set ts - {[]})"
  by (induction ts arbitrary: A) (auto simp: add_name_def)

lemma fold_add_name_if:
  "fold (\<lambda>t A. if P t then add_name (f t) A else A) ts A = A \<union> (f ` set (filter P ts) - {[]})"
  by (induction ts arbitrary: A) (auto simp: add_name_def)

lemma fold_add_item:
  "fold (add_item L) items A
     = A \<union> (get_text_strip L ` set (List.map_filter (\<lambda>item. find_tag (contents item) (has_name [lit ''a''])) items) - {[]})"
  by (induction items arbitrary: A) (auto simp: add_item_def add_name_def List.map_filter_simps split: option.splits)

lemma lineup_artists_union:
  "lineup_artists L page A = A \<union> heuristic1 L page \<union> heuristic2 L page \<union> heuristic3 L page"
  by (auto simp: lineup_artists_def heuristic1_def heuristic2_def heuristic3_def Let_def
        fold_add_name fold_add_name_if fold_add_item split: option.splits)

lemma strip_prefix: "dropWhile P s = rev (dropWhile P (rev (dropWhile P s))) @ rev (takeWhile P (rev (dropWhile P s)))"
  by (metis rev_append rev_rev_ident takeWhile_dropWhile_id)

lemma strip_trimmed:
  assumes "strip L s \<noteq> []"
  shows "\<not> py_isspace L (hd (strip L s)) \<and> \<not> py_isspace L (last (strip L s))"
proof -
  let ?t = "dropWhile (py_isspace L) s"
  let ?r = "dropWhile (py_isspace L) (rev ?t)"
  have s: "strip L s = rev ?r" by (simp add: strip_def)
  with assms have r: "?r \<noteq> []" by simp
  then have "\<not> py_isspace L (hd ?r)" by (rule hd_dropWhile)
  then have l: "\<not> py_isspace L (last (strip L s))"
    using r by (simp add: s last_rev)
  have "?t = strip L s @ rev (takeWhile (py_isspace L) (rev ?t))"
    unfolding s by (rule strip_prefix)
  with assms have "hd ?t = hd (strip L s)" and "?t \<noteq> []"
    by (metis hd_append2, metis append_is_Nil_conv)
  then have "\<not> py_isspace L (hd (strip L s))"
    using hd_dropWhile [of "py_isspace L" s] by simp
  with l show ?thesis by simp
qed

lemma concat_trimmed:
  assumes "\<forall>p \<in> set ps. p \<noteq> [] \<and> \<not> Q (hd p) \<and> \<not> Q (last p)" and "concat ps \<noteq> []"
  shows "\<not> Q (hd (concat ps)) \<and> \<not> Q (last (concat ps))"
  using assms
proof (induction ps)
  case Nil
  then show ?case by simp
next
  case (Cons p ps)
  show ?case
  proof (cases "concat ps = []")
    case True
    with Cons.prems show ?thesis by simp
  next
    case False
    with Cons have "\<not> Q (last (concat ps))" by simp
    with Cons.prems False show ?thesis by simp
  qed
qed

lemma get_text_strip_trimmed:
  assumes "get_text_strip L t \<noteq> []"
  shows "\<not> py_isspace L (hd (get_text_strip L t)) \<and> \<not> py_isspace L (last (get_text_strip L t))"
  unfolding get_text_strip_def
proof (rule concat_trimmed)
  show "\<forall>p\<in>set (filter (\<lambda>s. s \<noteq> []) (map (strip L) (strings_of t))).
       p \<noteq> [] \<and> \<not> py_isspace L (hd p) \<and> \<not> py_isspace L (last p)"
    using strip_trimmed by auto
  show "concat (filter (\<lambda>s. s \<noteq> []) (map (strip L) (strings_of t))) \<noteq> []"
    using assms by (simp add: get_text_strip_def)
qed

lemma strip_blank:
  assumes "list_all (py_isspace L) s"
  shows "strip L s = []"
proof -
  from assms have d: "dropWhile (py_isspace L) s = []"
    by (simp add: list_all_iff)
  show ?thesis unfolding strip_def d by simp
qed

lemma get_text_strip_blank:
  "list_all (list_all (py_isspace L)) (strings_of t) \<Longrightarrow> get_text_strip L t = []"
  by (auto simp: get_text_strip_def list_all_iff strip_blank)

lemma heuristics_trimmed:
  assumes "name \<in> heuristic1 L page \<union> heuristic2 L page \<union> heuristic3 L page"
  shows "name \<noteq> [] \<and> \<not> py_isspace L (hd name) \<and> \<not> py_isspace L (last name)"
proof -
  from assms obtain t where "name = get_text_strip L t" and "name \<noteq> []"
    by (auto simp: heuristic1_def heuristic2_def heuristic3_def split: option.splits)
  then show ?thesis using get_text_strip_trimmed by simp
qed
lemma artist_attempt_succeeds:
  assumes "responses w (sent w) url = Response 200 page"
  shows "fst (artist_attempts L url verbose (attempt # rest) w) = lineup_artists L page {}"
  using assms by (simp add: io_defs Let_def)

lemma artists_after_retries:
  assumes "k < 3" and "\<forall>i<k. failed (responses w (sent w + i) url)"
    and "responses w (sent w + k) url = Response 200 page"
  shows "fst (get_artists_from_event L url verbose w) = lineup_artists L page {}"
proof -
  have d: "get_artists_from_event L url verbose w = artist_attempts L url verbose [0, 1, 2] w"
    by (simp only: get_artists_from_event_def attempts_eq)
  consider "k = 0" | "k = 1" | "k = 2" using assms(1) by linarith
  then show ?thesis
  proof cases
    case 1
    with assms(3) show ?thesis
      unfolding d by (intro artist_attempt_succeeds) simp
  next
    case 2
    have "(0::nat) < k" using 2 by simp
    with assms(2) have "failed (responses w (sent w + 0) url)" by blast
    then have "failed (responses w (sent w) url)" by simp
    then obtain n0 where s0: "artist_attempts L url verbose [0, 1, 2] w
        = artist_attempts L url verbose [1, 2] (advance 1 n0 w)"
      using artist_attempt_fails [of w url L verbose 0 "[1, 2]"] by blast
    have "responses (advance 1 n0 w) (sent (advance 1 n0 w)) url = Response 200 page"
      using assms(3) 2 by (simp add: advance_sel)
    then show ?thesis
      unfolding d s0 by (rule artist_attempt_succeeds)
  next
    case 3
    have lt: "(0::nat) < k" "(1::nat) < k" using 3 by simp_all
    from assms(2) lt(1) have "failed (responses w (sent w + 0) url)" by blast
    then have "failed (responses w (sent w) url)" by simp
    from assms(2) lt(2) have f1: "failed (responses w (sent w + 1) url)" by blast
    note \<open>failed (responses w (sent w) url)\<close>
    then obtain n0 where s0: "artist_attempts L url verbose [0, 1, 2] w
        = artist_attempts L url verbose [1, 2] (advance 1 n0 w)"
      using artist_attempt_fails [of w url L verbose 0 "[1, 2]"] by blast
    have "failed (responses (advance 1 n0 w) (sent (advance 1 n0 w)) url)"
      using f1 by (simp add: advance_sel)
    then obtain n1 where s1: "artist_attempts L url verbose [1, 2] (advance 1 n0 w)
        = artist_attempts L url verbose [2] (advance 1 n1 (advance 1 n0 w))"
      using artist_attempt_fails [of "advance 1 n0 w" url L verbose 1 "[2]"] by blast
    have "responses (advance 1 n1 (advance 1 n0 w)) (sent (advance 1 n1 (advance 1 n0 w))) url
            = Response 200 page"
      using assms(3) 3 by (simp add: advance_sel add.assoc)
    then show ?thesis
      unfolding d s0 s1 by (rule artist_attempt_succeeds)
  qed
qed

text \<open>
  C8. The names \<open>get_artists_from_event\<close> returns for a lineup page are the union of
  what the three heuristics yield on it, whichever of the three attempts obtains the page;
  every name is a non-empty text without whitespace at either end, an empty or blank
  text being dropped. So with \<open>{a}\<close> from the first heuristic, \<open>{a, b}\<close> from the
  third and nothing else from the second, the result is \<open>{a, b}\<close>.
\<close>

theorem artists_are_union_of_heuristics:
  "lineup_artists L page {} = heuristic1 L page \<union> heuristic2 L page \<union> heuristic3 L page
   \<and> (k < 3 \<and> (\<forall>i<k. failed (responses w (sent w + i) event_url))
        \<and> responses w (sent w + k) event_url = Response 200 page
      \<longrightarrow> fst (get_artists_from_event L event_url verbose w)
            = heuristic1 L page \<union> heuristic2 L page \<union> heuristic3 L page)
   \<and> (\<forall>name \<in> lineup_artists L page {}.
         name \<noteq> [] \<and> \<not> py_isspace L (hd name) \<and> \<not> py_isspace L (last name))
   \<and> (heuristic1 L page = {a} \<and> heuristic2 L page \<subseteq> {a, b} \<and> heuristic3 L page = {a, b}
      \<longrightarrow> lineup_artists L page {} = {a, b})"
proof -
  have u: "lineup_artists L page {} = heuristic1 L page \<union> heuristic2 L page \<union> heuristic3 L page"
    by (simp add: lineup_artists_union)
  have r: "fst (get_artists_from_event L event_url verbose w)
            = heuristic1 L page \<union> heuristic2 L page \<union> heuristic3 L page"
    if "k < 3" "\<forall>i<k. failed (responses w (sent w + i) event_url)"
       "responses w (sent w + k) event_url = Response 200 page"
    using artists_after_retries [OF that] u by simp
  have t: "\<forall>name \<in> lineup_artists L page {}.
         name \<noteq> [] \<and> \<not> py_isspace L (hd name) \<and> \<not> py_isspace L (last name)"
    unfolding u using heuristics_trimmed by blast
  have e: "lineup_artists L page {} = {a, b}"
    if "heuristic1 L page = {a}" "heuristic2 L page \<subseteq> {a, b}" "heuristic3 L page = {a, b}"
    unfolding u using that by auto
  from u r t e show ?thesis by blast
qed

theorem artists_are_union_of_heuristics_witness:
  "heuristic1 cpython_latin1 lineup_456 = {lit ''Artist A''}
   \<and> heuristic2 cpython_latin1 lineup_456 = {}
   \<and> heuristic3 cpython_latin1 lineup_456 = {lit ''Artist A'', lit ''Artist B''}
   \<and> lineup_artists cpython_latin1 lineup_456 {} = {lit ''Artist A'', lit ''Artist B''}"
proof -
  have 1: "heuristic1 cpython_latin1 lineup_456 = {lit ''Artist A''}" by code_simp
  have 2: "heuristic2 cpython_latin1 lineup_456 = {}" by code_simp
  have 3: "heuristic3 cpython_latin1 lineup_456 = {lit ''Artist A'', lit ''Artist B''}" by code_simp
  have "lineup_artists cpython_latin1 lineup_456 {}
          = heuristic1 cpython_latin1 lineup_456 \<union> heuristic2 cpython_latin1 lineup_456
              \<union> heuristic3 cpython_latin1 lineup_456"
    by (rule artists_are_union_of_heuristics [THEN conjunct1])
  then have "lineup_artists cpython_latin1 lineup_456 {} = {lit ''Artist A'', lit ''Artist B''}"
    unfolding 1 2 3 by auto
  with 1 2 3 show ?thesis by blast
qed

section \<open>Event URLs of a page\<close>

lemma later_refl: "later w w"
  unfolding later_def using advance_0 by metis

lemma later_trans: "later w w1 \<Longrightarrow> later w1 w2 \<Longrightarrow> later w w2"
  unfolding later_def using advance_advance by metis

lemma later_advance: "later w (advance n new w)"
  unfolding later_def by blast

lemma later_io:
  "later w (print s w)" "later w (print_cr s w)" "later w (eprint s w)" "later w (sleep ms w)"
  "later w (emit e w)"
  by (simp_all add: io_defs later_advance)

lemma later_if_print: "later w (if b then print s w else w)"
  by (simp add: later_io later_refl)

lemma later_responses: "later w w' \<Longrightarrow> responses w' = responses w"
  by (auto simp: later_def advance_sel)

lemma canonical_clean: "canonical (clean_event_url u)"
  by (simp add: canonical_def endswith_clean no_query_clean)

lemma links_loop_result:
  assumes "links_loop L verbose links acc w = Inr (urls, w')"
  shows "(distinct acc \<longrightarrow> distinct urls) \<and> (list_all canonical acc \<longrightarrow> list_all canonical urls)
         \<and> later w w'"
  using assms
proof (induction links arbitrary: acc w)
  case Nil
  then show ?case by (simp add: later_refl)
next
  case (Cons link links)
  from Cons.prems obtain href where h: "href_of link = Some href"
    by (cases "href_of link") auto
  show ?case
  proof (cases "str_contains (lit ''/event/'') href")
    case False
    with Cons.prems h have "links_loop L verbose links acc w = Inr (urls, w')" by simp
    then show ?thesis by (rule Cons.IH)
  next
    case True
    with Cons.prems h obtain joined where j: "py_urljoin L BASE_URL href = Inr joined"
      by (cases "py_urljoin L BASE_URL href") (auto simp: Let_def)
    let ?acc = "if clean_event_url joined \<notin> set acc then acc @ [clean_event_url joined] else acc"
    let ?w = "if verbose then print (lit ''    Found event link: '' @ href) w else w"
    from Cons.prems h True j have "links_loop L verbose links ?acc ?w = Inr (urls, w')"
      by (simp add: Let_def)
    from Cons.IH [OF this]
    have i: "(distinct ?acc \<longrightarrow> distinct urls) \<and> (list_all canonical ?acc \<longrightarrow> list_all canonical urls)
         \<and> later ?w w'" .
    have d: "distinct acc \<Longrightarrow> distinct ?acc" by simp
    have c: "list_all canonical acc \<Longrightarrow> list_all canonical ?acc"
      by (simp add: canonical_clean)
    have l: "later w ?w" by (rule later_if_print)
    from i d c later_trans [OF l] show ?thesis by blast
  qed
qed

lemma scan_listing_result:
  assumes "scan_listing L verbose status_code page w = Inr (urls, w')"
  shows "distinct urls \<and> list_all canonical urls \<and> later w w'"
proof -
  let ?w1 = "if verbose then print (lit ''  Status: '' @ str_int status_code) w else w"
  let ?w2 = "if verbose then print (lit ''  Total links found: '' @ str_nat (length (event_links L page))) ?w1 else ?w1"
  from assms obtain w3 where l: "links_loop L verbose (event_links L page) [] ?w2 = Inr (urls, w3)"
    and w': "w' = (if verbose then print (lit ''  Found '' @ str_nat (length urls) @ lit '' unique event URLs'') w3 else w3)"
    by (auto simp: scan_listing_def Let_def split: sum.splits)
  from links_loop_result [OF l] have d: "distinct urls" and c: "list_all canonical urls"
    and l3: "later ?w2 w3" by simp_all
  have "later w ?w1" by (rule later_if_print)
  moreover have "later ?w1 ?w2" by (rule later_if_print)
  moreover have "later w3 w'" unfolding w' by (rule later_if_print)
  ultimately have "later w w'" using l3 later_trans by blast
  with d c show ?thesis by simp
qed

lemma page_attempt_succeeds:
  assumes "responses w (sent w) url = Response 200 page"
  shows "\<exists>new. page_attempts L url verbose (attempt # rest) w
                 = scan_listing L verbose 200 page (advance 1 new w)"
  using assms by (cases verbose) (simp_all add: io_defs Let_def, (intro exI, rule refl)+)

lemma page_attempts_result:
  assumes "page_attempts L url verbose attempts w = Inr (urls, w')"
  shows "distinct urls \<and> list_all canonical urls \<and> later w w'"
  using assms
proof (induction attempts arbitrary: w)
  case Nil
  then show ?case by (simp add: later_refl)
next
  case (Cons attempt rest)
  show ?case
  proof (cases "failed (responses w (sent w) url)")
    case True
    then obtain new where "page_attempts L url verbose (attempt # rest) w
        = page_attempts L url verbose rest (advance 1 new w)"
      using page_attempt_fails by blast
    with Cons.prems have "page_attempts L url verbose rest (advance 1 new w) = Inr (urls, w')"
      by simp
    from Cons.IH [OF this] later_trans [OF later_advance] show ?thesis
      by blast
  next
    case False
    then obtain page where "responses w (sent w) url = Response 200 page"
      by (cases "responses w (sent w) url") auto
    then obtain new where "page_attempts L url verbose (attempt # rest) w
        = scan_listing L verbose 200 page (advance 1 new w)"
      using page_attempt_succeeds by blast
    with Cons.prems have "scan_listing L verbose 200 page (advance 1 new w) = Inr (urls, w')"
      by simp
    from scan_listing_result [OF this] later_trans [OF later_advance] show ?thesis
      by blast
  qed
qed

lemma get_event_urls_from_page_result:
  assumes "get_event_urls_from_page L url verbose w = Inr (urls, w')"
  shows "distinct urls \<and> list_all canonical urls \<and> later w w'"
  using assms unfolding get_event_urls_from_page_def by (rule page_attempts_result)

lemma returned_Some: "returned r = Some x \<longleftrightarrow> (\<exists>w. r = Inr (x, w))"
  by (auto simp: returned_def split: sum.splits)

lemma links_loop_returns:
  assumes "\<forall>link \<in> set links. href_of link \<noteq> None"
    and "\<forall>href. \<exists>u. py_urljoin L BASE_URL href = Inr u"
  shows "\<exists>r. links_loop L verbose links acc w = Inr r"
  using assms(1)
proof (induction links arbitrary: acc w)
  case Nil
  then show ?case by simp
next
  case (Cons link links)
  then obtain href where h: "href_of link = Some href" by auto
  from assms(2) obtain u where u: "py_urljoin L BASE_URL href = Inr u" by blast
  from Cons have "\<exists>r. links_loop L verbose links acc' w' = Inr r" for acc' w' by simp
  with h u show ?case by (simp add: Let_def)
qed

lemma event_links_have_href: "\<forall>link \<in> set (event_links L page). href_of link \<noteq> None"
  by (auto simp: event_links_def find_all_def is_link_def)

lemma scan_listing_returns:
  assumes "\<forall>href. \<exists>u. py_urljoin L BASE_URL href = Inr u"
  shows "\<exists>r. scan_listing L verbose status_code page w = Inr r"
proof -
  obtain r where "links_loop L verbose (event_links L page) []
      (if verbose then print (lit ''  Total links found: '' @ str_nat (length (event_links L page)))
         (if verbose then print (lit ''  Status: '' @ str_int status_code) w else w)
       else (if verbose then print (lit ''  Status: '' @ str_int status_code) w else w)) = Inr r"
    using links_loop_returns [OF event_links_have_href assms] by blast
  then show ?thesis by (cases r) (simp add: scan_listing_def Let_def)
qed

lemma page_attempts_returns:
  assumes "\<forall>href. \<exists>u. py_urljoin L BASE_URL href = Inr u"
  shows "\<exists>r. page_attempts L url verbose attempts w = Inr r"
proof (induction attempts arbitrary: w)
  case Nil
  then show ?case by simp
next
  case (Cons attempt rest)
  show ?case
  proof (cases "failed (responses w (sent w) url)")
    case True
    then show ?thesis using page_attempt_fails [of w url L verbose attempt rest] Cons by metis
  next
    case False
    then obtain page where "responses w (sent w) url = Response 200 page"
      by (cases "responses w (sent w) url") auto
    then show ?thesis
      using page_attempt_succeeds [of w url page L verbose attempt rest] scan_listing_returns [OF assms]
      by metis
  qed
qed

lemma get_event_urls_from_page_returns:
  assumes "\<forall>href. \<exists>u. py_urljoin L BASE_URL href = Inr u"
  shows "\<exists>urls. returned (get_event_urls_from_page L url verbose w) = Some urls"
proof -
  obtain r where "get_event_urls_from_page L url verbose w = Inr r"
    unfolding get_event_urls_from_page_def using page_attempts_returns [OF assms] by blast
  then show ?thesis by (cases r) (simp add: returned_def)
qed

text \<open>
  C3. Whatever the page and its links, the URLs \<open>get_event_urls_from_page\<close> returns all
  end with \<open>/lineup\<close>, none contains a question mark, and none occurs twice. (The call
  returns unless \<open>urljoin\<close> raises on a reference of the page, see
  \<open>get_event_urls_from_page_returns\<close>.)
\<close>

theorem event_urls_canonical_and_distinct:
  assumes "returned (get_event_urls_from_page L url verbose w) = Some event_urls"
  shows "distinct event_urls
         \<and> (\<forall>u \<in> set event_urls. endswith u (lit ''/lineup'') \<and> 63 \<notin> set u)"
proof -
  from assms obtain w' where "get_event_urls_from_page L url verbose w = Inr (event_urls, w')"
    by (auto simp: returned_Some)
  from get_event_urls_from_page_result [OF this] show ?thesis
    by (simp add: list_all_iff canonical_def)
qed

theorem event_urls_canonical_and_distinct_witness:
  "returned (get_event_urls_from_page cpython_latin1 (main_url (lit ''bob'')) False example_world)
     = Some [event_123]
   \<and> distinct [event_123] \<and> endswith event_123 (lit ''/lineup'') \<and> 63 \<notin> set event_123"
proof -
  have r: "returned (get_event_urls_from_page cpython_latin1 (main_url (lit ''bob'')) False example_world)
     = Some [event_123]"
    by code_simp
  from event_urls_canonical_and_distinct [OF r] r show ?thesis by simp
qed

section \<open>The crawl\<close>

lemma first_seen_append: "first_seen acc (p @ q) = first_seen (first_seen acc p) q"
  by (induction p arbitrary: acc) simp_all

lemma distinct_first_seen: "distinct acc \<Longrightarrow> distinct (first_seen acc xs)"
  by (induction xs arbitrary: acc) simp_all

lemma merge_first_seen:
  "distinct p \<Longrightarrow> acc @ filter (\<lambda>url. url \<notin> set acc) p = first_seen acc p"
proof (induction p arbitrary: acc)
  case Nil
  then show ?case by simp
next
  case (Cons x xs)
  show ?case
  proof (cases "x \<in> set acc")
    case True
    with Cons show ?thesis by simp
  next
    case False
    from Cons.prems have "filter (\<lambda>url. url \<notin> set (acc @ [x])) xs = filter (\<lambda>url. url \<notin> set acc) xs"
      by (intro filter_cong) auto
    with Cons.IH [of "acc @ [x]"] Cons.prems False show ?thesis by simp
  qed
qed

lemma years_loop_result:
  assumes "years_loop L username verbose years acc w = Inr (urls, w')"
  shows "\<exists>pages. list_all2 (\<lambda>year page. \<exists>wa. later w wa
                     \<and> returned (get_event_urls_from_page L (year_url username year) verbose wa) = Some page)
                   years pages
           \<and> urls = first_seen acc (concat pages) \<and> later w w'"
  using assms
proof (induction years arbitrary: acc w)
  case Nil
  then show ?case by (simp add: later_refl)
next
  case (Cons year years)
  let ?w0 = "print (lit ''Fetching events from '' @ str_int year @ lit ''...'') w"
  from Cons.prems obtain page w1 where
    p: "get_event_urls_from_page L (year_url username year) verbose ?w0 = Inr (page, w1)"
    by (auto split: sum.splits)
  let ?new = "filter (\<lambda>url. url \<notin> set acc) page"
  let ?w2 = "sleep 1000 (print (lit ''Found '' @ str_nat (length ?new) @ lit '' new events in ''
                             @ str_int year) w1)"
  from Cons.prems p have "years_loop L username verbose years (acc @ ?new) ?w2 = Inr (urls, w')"
    by (simp add: Let_def)
  from Cons.IH [OF this] obtain pages where
    a: "list_all2 (\<lambda>year page. \<exists>wa. later ?w2 wa
                     \<and> returned (get_event_urls_from_page L (year_url username year) verbose wa) = Some page)
                   years pages"
    and u: "urls = first_seen (acc @ ?new) (concat pages)" and l: "later ?w2 w'"
    by blast
  from get_event_urls_from_page_result [OF p] have d: "distinct page" and l1: "later ?w0 w1"
    by simp_all
  have l0: "later w ?w0" by (rule later_io)
  have l2: "later w1 ?w2" using later_io later_trans by blast
  have l02: "later w ?w2" using l0 l1 l2 later_trans by blast
  have "list_all2 (\<lambda>year page. \<exists>wa. later w wa
                     \<and> returned (get_event_urls_from_page L (year_url username year) verbose wa) = Some page)
                   years pages"
    using later_trans [OF l02] by (intro list_all2_mono [OF a]) blast
  moreover have "\<exists>wa. later w wa
       \<and> returned (get_event_urls_from_page L (year_url username year) verbose wa) = Some page"
    using l0 p by (auto simp: returned_def)
  ultimately have "list_all2 (\<lambda>year page. \<exists>wa. later w wa
                     \<and> returned (get_event_urls_from_page L (year_url username year) verbose wa) = Some page)
                   (year # years) (page # pages)"
    by simp
  moreover have "urls = first_seen acc (concat (page # pages))"
    using u d by (simp add: first_seen_append merge_first_seen)
  moreover have "later w w'" using l02 l later_trans by blast
  ultimately show ?case by blast
qed

lemma years_loop_returns:
  assumes "\<forall>href. \<exists>u. py_urljoin L BASE_URL href = Inr u"
  shows "\<exists>r. years_loop L username verbose years acc w = Inr r"
proof (induction years arbitrary: acc w)
  case Nil
  then show ?case by simp
next
  case (Cons year years)
  obtain page w1 where "get_event_urls_from_page L (year_url username year) verbose
      (print (lit ''Fetching events from '' @ str_int year @ lit ''...'') w) = Inr (page, w1)"
    using get_event_urls_from_page_returns [OF assms] by (fastforce simp: returned_Some)
  with Cons show ?case by (simp add: Let_def)
qed

lemma get_all_event_urls_returns:
  assumes "\<forall>href. \<exists>u. py_urljoin L BASE_URL href = Inr u"
  shows "\<exists>urls. returned (get_all_event_urls L username start_year end_year verbose w) = Some urls"
proof -
  obtain page w1 where "get_event_urls_from_page L (main_url username) verbose
      (print (lit ''Fetching events from main page...'') w) = Inr (page, w1)"
    using get_event_urls_from_page_returns [OF assms] by (fastforce simp: returned_Some)
  moreover obtain r where "years_loop L username verbose [start_year..end_year] page
      (sleep 1000 (print (lit ''Found '' @ str_nat (length page) @ lit '' events on main page'') w1)) = Inr r"
    using years_loop_returns [OF assms] by blast
  ultimately show ?thesis
    by (cases r) (simp add: get_all_event_urls_def returned_def)
qed

text \<open>
  C7. What \<open>get_all_event_urls\<close> returns is made of the lists that
  \<open>get_event_urls_from_page\<close> returns for the main listing and then for the listing of
  each year from \<open>start_year\<close> to \<open>end_year\<close>, both included and in ascending order
  (each call made later in the same run, against the same network): these lists put one
  after the other, every URL kept only where it is first seen. The result has no
  duplicate. (The call returns unless \<open>urljoin\<close> raises on a reference of one of the
  pages, see \<open>get_all_event_urls_returns\<close>.)
\<close>

theorem crawl_merges_pages_in_order:
  assumes "returned (get_all_event_urls L username start_year end_year verbose w) = Some urls"
  shows "\<exists>pages. list_all2 (\<lambda>page_url page. \<exists>wa. later w wa
                     \<and> returned (get_event_urls_from_page L page_url verbose wa) = Some page)
                   (main_url username # map (year_url username) [start_year..end_year]) pages
           \<and> urls = first_seen [] (concat pages) \<and> distinct urls"
proof -
  let ?w0 = "print (lit ''Fetching events from main page...'') w"
  from assms obtain w' where
    g: "get_all_event_urls L username start_year end_year verbose w = Inr (urls, w')"
    by (auto simp: returned_Some)
  then obtain page w1 where
    p: "get_event_urls_from_page L (main_url username) verbose ?w0 = Inr (page, w1)"
    by (auto simp: get_all_event_urls_def split: sum.splits)
  let ?w2 = "sleep 1000 (print (lit ''Found '' @ str_nat (length page) @ lit '' events on main page'') w1)"
  from g p have "years_loop L username verbose [start_year..end_year] page ?w2 = Inr (urls, w')"
    by (simp add: get_all_event_urls_def)
  from years_loop_result [OF this] obtain pages where
    a: "list_all2 (\<lambda>year page. \<exists>wa. later ?w2 wa
                     \<and> returned (get_event_urls_from_page L (year_url username year) verbose wa) = Some page)
                   [start_year..end_year] pages"
    and u: "urls = first_seen page (concat pages)"
    by blast
  from get_event_urls_from_page_result [OF p] have d: "distinct page" and l1: "later ?w0 w1"
    by simp_all
  have l0: "later w ?w0" by (rule later_io)
  have l2: "later w1 ?w2" using later_io later_trans by blast
  have l02: "later w ?w2" using l0 l1 l2 later_trans by blast
  have "list_all2 (\<lambda>year page. \<exists>wa. later w wa
                     \<and> returned (get_event_urls_from_page L (year_url username year) verbose wa) = Some page)
                   [start_year..end_year] pages"
    using later_trans [OF l02] by (intro list_all2_mono [OF a]) blast
  then have "list_all2 (\<lambda>page_url page. \<exists>wa. later w wa
                     \<and> returned (get_event_urls_from_page L page_url verbose wa) = Some page)
                   (map (year_url username) [start_year..end_year]) pages"
    by (simp add: list_all2_map1)
  moreover have "\<exists>wa. later w wa
       \<and> returned (get_event_urls_from_page L (main_url username) verbose wa) = Some page"
    using l0 p by (auto simp: returned_def)
  ultimately have "list_all2 (\<lambda>page_url page. \<exists>wa. later w wa
                     \<and> returned (get_event_urls_from_page L page_url verbose wa) = Some page)
                   (main_url username # map (year_url username) [start_year..end_year]) (page # pages)"
    by simp
  moreover have f: "first_seen [] page = page"
    using merge_first_seen [OF d, of "[]"] by simp
  have "urls = first_seen [] (concat (page # pages))"
    using u by (simp add: first_seen_append f)
  moreover have "distinct urls"
    unfolding u using d by (rule distinct_first_seen)
  ultimately show ?thesis by blast
qed

theorem crawl_merges_pages_in_order_witness:
  "returned (get_all_event_urls cpython_latin1 (lit ''bob'') 2024 2024 False example_world)
     = Some [event_123, event_456]
   \<and> (\<exists>pages. list_all2 (\<lambda>page_url page. \<exists>wa. later example_world wa
                     \<and> returned (get_event_urls_from_page cpython_latin1 page_url False wa) = Some page)
                   (main_url (lit ''bob'') # map (year_url (lit ''bob'')) [2024..2024]) pages
           \<and> [event_123, event_456] = first_seen [] (concat pages)
           \<and> distinct [event_123, event_456])"
proof (rule conjI)
  show r: "returned (get_all_event_urls cpython_latin1 (lit ''bob'') 2024 2024 False example_world)
     = Some [event_123, event_456]"
    by code_simp
  show "\<exists>pages. list_all2 (\<lambda>page_url page. \<exists>wa. later example_world wa
                     \<and> returned (get_event_urls_from_page cpython_latin1 page_url False wa) = Some page)
                   (main_url (lit ''bob'') # map (year_url (lit ''bob'')) [2024..2024]) pages
           \<and> [event_123, event_456] = first_seen [] (concat pages)
           \<and> distinct [event_123, event_456]"
    by (rule crawl_merges_pages_in_order [OF r])
qed

section \<open>Ending without events\<close>

lemma show_urls_empty: "show_urls [] w = print ([10] @ lit ''Event URLs:'') w"
  by (simp add: show_urls_def)

text \<open>
  C9. When the crawl returns no event URL, \<open>main\<close> ends by \<open>sys.exit(0)\<close>; after the
  crawl it only writes to standard output, the last line being the message that no events
  were found for the user, so no lineup page is requested.
\<close>

theorem no_events_exits_cleanly:
  assumes "returned (get_all_event_urls L (arg_username a) (arg_start_year a) (arg_end_year a)
                       (arg_verbose a) (banner a w)) = Some []"
  shows "returned (main L a w) = Some (SystemExit 0)
         \<and> (\<exists>out. effects (main L a w)
                     = effects (get_all_event_urls L (arg_username a) (arg_start_year a) (arg_end_year a)
                                  (arg_verbose a) (banner a w)) @ out
                 \<and> list_all is_stdout out
                 \<and> last out = Stdout (lit ''No events found for user: '' @ arg_username a @ [10]))"
proof -
  from assms obtain w1 where
    g: "get_all_event_urls L (arg_username a) (arg_start_year a) (arg_end_year a)
          (arg_verbose a) (banner a w) = Inr ([], w1)"
    by (auto simp: returned_Some)
  let ?total = "Stdout ([10] @ lit ''Total events found: '' @ str_nat 0 @ [10])"
  let ?urls = "Stdout ([10] @ lit ''Event URLs:'' @ [10])"
  let ?none = "Stdout (lit ''No events found for user: '' @ arg_username a @ [10])"
  let ?out = "[?total] @ (if arg_verbose a then [?urls] else []) @ [?none]"
  have m: "main L a w = Inr (SystemExit 0, advance 0 ?out w1)"
    unfolding main_def g
    by (cases "arg_verbose a") (simp_all add: Let_def show_urls_empty io_defs)
  have "returned (main L a w) = Some (SystemExit 0)"
    by (simp add: m returned_def)
  moreover have "effects (main L a w)
      = effects (get_all_event_urls L (arg_username a) (arg_start_year a) (arg_end_year a)
                   (arg_verbose a) (banner a w)) @ ?out"
    by (simp add: m g effects_def advance_sel)
  moreover have "list_all is_stdout ?out" by simp
  moreover have "last ?out = ?none" by simp
  ultimately show ?thesis by blast
qed

theorem no_events_exits_cleanly_witness:
  "returned (get_all_event_urls cpython_latin1 (arg_username unknown_args) (arg_start_year unknown_args)
               (arg_end_year unknown_args) (arg_verbose unknown_args) (banner unknown_args example_world))
     = Some []
   \<and> returned (main cpython_latin1 unknown_args example_world) = Some (SystemExit 0)"
proof (rule conjI)
  show r: "returned (get_all_event_urls cpython_latin1 (arg_username unknown_args) (arg_start_year unknown_args)
               (arg_end_year unknown_args) (arg_verbose unknown_args) (banner unknown_args example_world))
     = Some []"
    by code_simp
  show "returned (main cpython_latin1 unknown_args example_world) = Some (SystemExit 0)"
    using no_events_exits_cleanly [OF r] by (rule conjunct1)
qed

section \<open>The harvest\<close>

lemma filter_get_of_sleep: "filter is_get (filter is_get_or_sleep new) = filter is_get new"
proof -
  have "is_get e \<and> is_get_or_sleep e \<longleftrightarrow> is_get e" for e by (cases e) simp_all
  then show ?thesis by (simp add: conj_commute)
qed

lemma replicate_get_member:
  assumes "filter is_get new = replicate (Suc n) (Get url)"
  shows "Get url \<in> set new"
proof -
  have "Get url \<in> set (filter is_get new)" by (simp add: assms)
  then show ?thesis by simp
qed

lemma artist_attempts_requests:
  "\<exists>n new. snd (artist_attempts L url verbose attempts w) = advance n new w
      \<and> filter is_get new = replicate n (Get url) \<and> (attempts \<noteq> [] \<longrightarrow> 0 < n)"
proof (induction attempts arbitrary: w)
  case Nil
  have "snd (artist_attempts L url verbose [] w) = advance 0 [] w"
    by (simp add: advance_0)
  then show ?case by fastforce
next
  case (Cons attempt rest)
  show ?case
  proof (cases "failed (responses w (sent w) url)")
    case True
    then obtain n0 where s: "artist_attempts L url verbose (attempt # rest) w
        = artist_attempts L url verbose rest (advance 1 n0 w)"
      and g: "filter is_get_or_sleep n0 = Get url # (if attempt < max_retries - 1 then [Sleep 5000] else [])"
      using artist_attempt_fails [of w url L verbose attempt rest] by blast
    from g have g0: "filter is_get n0 = [Get url]"
      using filter_get_of_sleep [of n0] by (simp split: if_splits)
    from Cons [of "advance 1 n0 w"] obtain n new where
      r: "snd (artist_attempts L url verbose rest (advance 1 n0 w)) = advance n new (advance 1 n0 w)"
      and f: "filter is_get new = replicate n (Get url)" by blast
    have "snd (artist_attempts L url verbose (attempt # rest) w) = advance (Suc n) (n0 @ new) w"
      unfolding s r advance_advance by simp
    moreover have "filter is_get (n0 @ new) = replicate (Suc n) (Get url)"
      by (simp add: g0 f)
    ultimately show ?thesis by blast
  next
    case False
    then obtain page where p: "responses w (sent w) url = Response 200 page"
      by (cases "responses w (sent w) url") auto
    let ?warn = "if verbose \<and> lineup_artists L page {} = {}
                 then [Stdout ([10] @ lit ''  Warning: No artists found for '' @ url @ [10])] else []"
    have "snd (artist_attempts L url verbose (attempt # rest) w) = advance (Suc 0) (Get url # ?warn) w"
      using p by (simp add: io_defs Let_def)
    moreover have "filter is_get (Get url # ?warn) = replicate (Suc 0) (Get url)"
      by simp
    ultimately show ?thesis by blast
  qed
qed

text \<open>Every call of \<open>get_artists_from_event\<close> sends at least one request, all for its URL.\<close>

lemma get_artists_from_event_requests:
  "\<exists>n new. snd (get_artists_from_event L url verbose w) = advance (Suc n) new w
      \<and> filter is_get new = replicate (Suc n) (Get url)"
proof -
  have "[0..<max_retries] \<noteq> []" by (simp add: attempts_eq)
  with artist_attempts_requests [of L url verbose "[0..<max_retries]" w]
  obtain n new where "snd (get_artists_from_event L url verbose w) = advance n new w"
    and "filter is_get new = replicate n (Get url)" and "0 < n"
    unfolding get_artists_from_event_def by blast
  then show ?thesis by (cases n) auto
qed

lemma first_loop_requests:
  "\<exists>n new. snd (snd (first_loop L verbose cnt i event_urls all_artists failed_count w)) = advance n new w
      \<and> (\<forall>url \<in> set event_urls. Get url \<in> set new)"
proof (induction event_urls arbitrary: i all_artists failed_count w)
  case Nil
  have "snd (snd (first_loop L verbose cnt i [] all_artists failed_count w)) = advance 0 [] w"
    by (simp add: advance_0)
  then show ?case by fastforce
next
  case (Cons event_url rest)
  let ?w1 = "if \<not> verbose then print_cr (processing i cnt @ lit ''...'') w
             else print ([10] @ processing i cnt @ lit '': '' @ event_url) w"
  obtain p where w1: "?w1 = advance 0 p w"
    by (cases verbose) (simp_all add: io_defs)
  obtain artists w2 where a: "get_artists_from_event L event_url verbose ?w1 = (artists, w2)"
    by (cases "get_artists_from_event L event_url verbose ?w1") auto
  from get_artists_from_event_requests [of L event_url verbose ?w1] a obtain n new where
    w2: "w2 = advance (Suc n) new ?w1" and g: "filter is_get new = replicate (Suc n) (Get event_url)"
    by auto
  have m: "Get event_url \<in> set new"
    by (rule replicate_get_member [OF g])
  let ?found = "if artists \<noteq> {} \<and> verbose
                then [Stdout (lit ''  Found '' @ str_nat (card artists) @ lit '' artist(s): ''
                                @ join (lit '', '') (take 3 (py_set_iter L artists))
                                @ (if card artists > 3 then lit ''...'' else []) @ [10])]
                else []"
  define w3 where "w3 = advance 0 (?found @ [Sleep 500]) w2"
  define all_artists' where "all_artists' = (if artists \<noteq> {} then all_artists \<union> artists else all_artists)"
  define failed_count' where "failed_count' = (if artists \<noteq> {} then failed_count else failed_count + 1)"
  have s: "first_loop L verbose cnt i (event_url # rest) all_artists failed_count w
          = first_loop L verbose cnt (i + 1) rest all_artists' failed_count' w3"
    using a unfolding w3_def all_artists'_def failed_count'_def
    by (cases verbose) (simp_all add: Let_def io_defs)
  obtain q where q: "w3 = advance 0 q w2" using w3_def by blast
  from Cons [of "i + 1" all_artists' failed_count' w3] obtain k more where
    r: "snd (snd (first_loop L verbose cnt (i + 1) rest all_artists' failed_count' w3)) = advance k more w3"
    and i: "\<forall>url \<in> set rest. Get url \<in> set more" by blast
  have "snd (snd (first_loop L verbose cnt i (event_url # rest) all_artists failed_count w))
          = advance k more w3"
    unfolding s by (rule r)
  also have "\<dots> = advance (Suc n + k) (p @ new @ q @ more) w"
    unfolding q w2 w1 advance_advance by simp
  finally have "snd (snd (first_loop L verbose cnt i (event_url # rest) all_artists failed_count w))
          = advance (Suc n + k) (p @ new @ q @ more) w" .
  moreover have "\<forall>url \<in> set (event_url # rest). Get url \<in> set (p @ new @ q @ more)"
    using m i by auto
  ultimately show ?case by blast
qed

lemma second_loop_requests:
  "\<exists>n new. snd (second_loop L cnt i event_urls all_artists w) = advance n new w
      \<and> (\<forall>url \<in> set event_urls. Get url \<in> set new)"
proof (induction event_urls arbitrary: i all_artists w)
  case Nil
  have "snd (second_loop L cnt i [] all_artists w) = advance 0 [] w"
    by (simp add: advance_0)
  then show ?case by fastforce
next
  case (Cons event_url rest)
  let ?w1 = "print_cr (processing i cnt @ lit ''...'') w"
  have w1: "?w1 = advance 0 [Stdout (processing i cnt @ lit ''...'' @ [13])] w"
    by (simp add: io_defs)
  obtain artists w2 where a: "get_artists_from_event L event_url False ?w1 = (artists, w2)"
    by (cases "get_artists_from_event L event_url False ?w1") auto
  from get_artists_from_event_requests [of L event_url False ?w1] a obtain n new where
    w2: "w2 = advance (Suc n) new ?w1" and g: "filter is_get new = replicate (Suc n) (Get event_url)"
    by auto
  have m: "Get event_url \<in> set new"
    by (rule replicate_get_member [OF g])
  have s: "second_loop L cnt i (event_url # rest) all_artists w
          = second_loop L cnt (i + 1) rest (all_artists \<union> artists) (advance 0 [Sleep 500] w2)"
    using a by (simp add: io_defs)
  from Cons [of "i + 1" "all_artists \<union> artists" "advance 0 [Sleep 500] w2"] obtain k more where
    r: "snd (second_loop L cnt (i + 1) rest (all_artists \<union> artists) (advance 0 [Sleep 500] w2))
          = advance k more (advance 0 [Sleep 500] w2)"
    and i: "\<forall>url \<in> set rest. Get url \<in> set more" by blast
  have "snd (second_loop L cnt i (event_url # rest) all_artists w)
          = advance k more (advance 0 [Sleep 500] w2)"
    unfolding s by (rule r)
  also have "\<dots> = advance (Suc n + k)
      ([Stdout (processing i cnt @ lit ''...'' @ [13])] @ new @ [Sleep 500] @ more) w"
    unfolding w2 w1 advance_advance by simp
  finally have "snd (second_loop L cnt i (event_url # rest) all_artists w)
          = advance (Suc n + k) ([Stdout (processing i cnt @ lit ''...'' @ [13])] @ new @ [Sleep 500] @ more) w" .
  moreover have "\<forall>url \<in> set (event_url # rest).
      Get url \<in> set ([Stdout (processing i cnt @ lit ''...'' @ [13])] @ new @ [Sleep 500] @ more)"
    using m i by auto
  ultimately show ?case by blast
qed

text \<open>Whatever the events and the network, the harvest requests every event in its first
  loop and again in its second.\<close>

lemma harvest_fetches_twice:
  "\<exists>n first between second.
      snd (harvest L verbose event_urls w) = advance n (first @ between @ second) w
      \<and> (\<forall>url \<in> set event_urls. Get url \<in> set first \<and> Get url \<in> set second)"
proof -
  let ?w0 = "print ([10] @ lit ''Extracting artists from events...'') w"
  obtain all_artists failed_count w1 where
    f: "first_loop L verbose (length event_urls) 1 event_urls {} 0 ?w0 = (all_artists, failed_count, w1)"
    by (metis prod_cases3)
  from first_loop_requests [of L verbose "length event_urls" 1 event_urls "{}" 0 ?w0] f
  obtain n1 new1 where w1: "w1 = advance n1 new1 ?w0"
    and g1: "\<forall>url \<in> set event_urls. Get url \<in> set new1" by auto
  let ?w3 = "if verbose
             then print (lit ''Total unique artists: '' @ str_nat (card all_artists))
                    (print (lit ''Events with no artists found: '' @ str_nat failed_count)
                       (print ([10] @ lit ''Events processed: '' @ str_nat (length event_urls)) (print [] w1)))
             else print [] w1"
  obtain mid where w3: "?w3 = advance 0 mid w1"
    by (cases verbose) (simp_all add: io_defs)
  obtain all_artists' w4 where
    s: "second_loop L (length event_urls) 1 event_urls all_artists ?w3 = (all_artists', w4)"
    by (cases "second_loop L (length event_urls) 1 event_urls all_artists ?w3") auto
  from second_loop_requests [of L "length event_urls" 1 event_urls all_artists ?w3] s
  obtain n2 new2 where w4: "w4 = advance n2 new2 ?w3"
    and g2: "\<forall>url \<in> set event_urls. Get url \<in> set new2" by auto
  have "snd (harvest L verbose event_urls w) = print [] w4"
    using f s by (simp add: harvest_def Let_def)
  also have "\<dots> = advance (n1 + n2)
      (([Stdout ([10] @ lit ''Extracting artists from events...'' @ [10])] @ new1) @ mid @ (new2 @ [Stdout [10]])) w"
    unfolding w4 unfolding w3 unfolding w1 by (simp add: io_defs)
  finally have "snd (harvest L verbose event_urls w) = advance (n1 + n2)
      (([Stdout ([10] @ lit ''Extracting artists from events...'' @ [10])] @ new1) @ mid @ (new2 @ [Stdout [10]])) w" .
  moreover have "\<forall>url \<in> set event_urls.
      Get url \<in> set ([Stdout ([10] @ lit ''Extracting artists from events...'' @ [10])] @ new1)
      \<and> Get url \<in> set (new2 @ [Stdout [10]])"
    using g1 g2 by simp
  ultimately show ?thesis by blast
qed

text \<open>
  C2. The harvest is meant to fetch each event once, and the first loop (lines 333 to 347)
  does so; the loop of lines 355 to 359 then fetches every event again. On the example
  site, where two events are found, the requests and sleeps of a whole run are: the two
  listings, then events 123 and 456, then events 123 and 456 a second time. (For any
  events and any network, see \<open>harvest_fetches_twice\<close>.)
\<close>

theorem every_event_is_fetched_twice:
  "filter is_get_or_sleep (effects (main cpython_latin1 example_args example_world))
     = [Get (main_url (lit ''bob'')), Sleep 1000, Get (year_url (lit ''bob'') 2024), Sleep 1000,
        Get event_123, Sleep 500, Get event_456, Sleep 500,
        Get event_123, Sleep 500, Get event_456, Sleep 500]"
  by code_simp

section \<open>The sort of the harvested names\<close>

text \<open>A name is trimmed when \<open>strip\<close> leaves it as it is; a non-empty trimmed name
  has no whitespace at either end.\<close>

lemma trimmed_last:
  assumes "strip L s = s" and "s \<noteq> []"
  shows "\<not> py_isspace L (last s)"
  using strip_trimmed [of L s] assms by simp

lemma trimmedI:
  assumes "s \<noteq> []" and "\<not> py_isspace L (hd s)" and "\<not> py_isspace L (last s)"
  shows "strip L s = s"
proof -
  have "dropWhile (py_isspace L) s = s"
    using assms(2) by (simp add: dropWhile_eq_self_iff)
  moreover have "dropWhile (py_isspace L) (rev s) = rev s"
    using assms(1,3) by (simp add: dropWhile_eq_self_iff hd_rev)
  ultimately show ?thesis by (simp add: strip_def)
qed

lemma lineup_artists_trimmed:
  assumes "name \<in> lineup_artists L page {}"
  shows "strip L name = name"
proof -
  from assms have "name \<in> heuristic1 L page \<union> heuristic2 L page \<union> heuristic3 L page"
    by (simp add: lineup_artists_union)
  from heuristics_trimmed [OF this] show ?thesis by (simp add: trimmedI)
qed

lemma artist_attempts_trimmed:
  assumes "name \<in> fst (artist_attempts L url verbose attempts w)"
  shows "strip L name = name"
  using assms
proof (induction attempts arbitrary: w)
  case Nil
  then show ?case by simp
next
  case (Cons attempt rest)
  show ?case
  proof (cases "failed (responses w (sent w) url)")
    case True
    then obtain new where "artist_attempts L url verbose (attempt # rest) w
        = artist_attempts L url verbose rest (advance 1 new w)"
      using artist_attempt_fails [of w url L verbose attempt rest] by blast
    with Cons.prems have "name \<in> fst (artist_attempts L url verbose rest (advance 1 new w))"
      by simp
    then show ?thesis by (rule Cons.IH)
  next
    case False
    then obtain page where "responses w (sent w) url = Response 200 page"
      by (cases "responses w (sent w) url") auto
    from artist_attempt_succeeds [OF this, of L verbose attempt rest] Cons.prems
    have "name \<in> lineup_artists L page {}" by simp
    then show ?thesis by (rule lineup_artists_trimmed)
  qed
qed

lemma get_artists_from_event_trimmed:
  "name \<in> fst (get_artists_from_event L url verbose w) \<Longrightarrow> strip L name = name"
  unfolding get_artists_from_event_def by (rule artist_attempts_trimmed)

lemma first_loop_trimmed:
  assumes "\<forall>name \<in> all_artists. strip L name = name"
  shows "\<forall>name \<in> fst (first_loop L verbose cnt i event_urls all_artists failed_count w).
           strip L name = name"
  using assms
proof (induction event_urls arbitrary: i all_artists failed_count w)
  case Nil
  then show ?case by simp
next
  case (Cons event_url rest)
  let ?w1 = "if \<not> verbose then print_cr (processing i cnt @ lit ''...'') w
             else print ([10] @ processing i cnt @ lit '': '' @ event_url) w"
  obtain artists w2 where a: "get_artists_from_event L event_url verbose ?w1 = (artists, w2)"
    by (cases "get_artists_from_event L event_url verbose ?w1") auto
  then have t: "\<forall>name \<in> artists. strip L name = name"
    using get_artists_from_event_trimmed [of _ L event_url verbose ?w1] by simp
  show ?case
  proof (cases "artists \<noteq> {}")
    case True
    from Cons.prems t have "\<forall>name \<in> all_artists \<union> artists. strip L name = name" by blast
    from Cons.IH [OF this] show ?thesis using a True by (simp add: Let_def)
  next
    case False
    from Cons.IH [OF Cons.prems] show ?thesis using a False by (simp add: Let_def)
  qed
qed

lemma second_loop_trimmed:
  assumes "\<forall>name \<in> all_artists. strip L name = name"
  shows "\<forall>name \<in> fst (second_loop L cnt i event_urls all_artists w). strip L name = name"
  using assms
proof (induction event_urls arbitrary: i all_artists w)
  case Nil
  then show ?case by simp
next
  case (Cons event_url rest)
  let ?w1 = "print_cr (processing i cnt @ lit ''...'') w"
  obtain artists w2 where a: "get_artists_from_event L event_url False ?w1 = (artists, w2)"
    by (cases "get_artists_from_event L event_url False ?w1") auto
  then have "\<forall>name \<in> artists. strip L name = name"
    using get_artists_from_event_trimmed [of _ L event_url False ?w1] by simp
  with Cons.prems have "\<forall>name \<in> all_artists \<union> artists. strip L name = name" by blast
  from Cons.IH [OF this] show ?case using a by simp
qed

text \<open>Every name that \<open>main\<close> passes to \<open>sort_artists\<close> (line 364) is trimmed.\<close>

lemma harvest_trimmed:
  "\<forall>name \<in> fst (harvest L verbose event_urls w). strip L name = name"
proof -
  let ?w0 = "print ([10] @ lit ''Extracting artists from events...'') w"
  obtain all_artists failed_count w1 where
    f: "first_loop L verbose (length event_urls) 1 event_urls {} 0 ?w0 = (all_artists, failed_count, w1)"
    by (metis prod_cases3)
  have t1: "\<forall>name \<in> all_artists. strip L name = name"
    using first_loop_trimmed [of "{}" L verbose "length event_urls" 1 event_urls 0 ?w0] f by simp
  let ?w3 = "if verbose
             then print (lit ''Total unique artists: '' @ str_nat (card all_artists))
                    (print (lit ''Events with no artists found: '' @ str_nat failed_count)
                       (print ([10] @ lit ''Events processed: '' @ str_nat (length event_urls)) (print [] w1)))
             else print [] w1"
  obtain all_artists' w4 where
    s: "second_loop L (length event_urls) 1 event_urls all_artists ?w3 = (all_artists', w4)"
    by (cases "second_loop L (length event_urls) 1 event_urls all_artists ?w3") auto
  have t2: "\<forall>name \<in> all_artists'. strip L name = name"
    using second_loop_trimmed [OF t1, of "length event_urls" 1 event_urls ?w3] s by simp
  have "fst (harvest L verbose event_urls w) = all_artists'"
    using f s by (simp add: harvest_def Let_def)
  with t2 show ?thesis by simp
qed

lemma sort_artists_stable:
  "sorted (map (sort_key_artist L ignore_the) (sort_artists L artists ignore_the))
   \<and> mset (sort_artists L artists ignore_the) = mset (py_set_iter L artists)
   \<and> filter (\<lambda>x. sort_key_artist L ignore_the x = k) (sort_artists L artists ignore_the)
       = filter (\<lambda>x. sort_key_artist L ignore_the x = k) (py_set_iter L artists)"
  by (simp add: sort_artists_def sort_key_stable)

text \<open>The Latin-1 tables have the two properties of the library that the key relies on.\<close>

lemma latin1_article:
  "\<forall>s. length s \<le> 4 \<and> startswith (py_lower cpython_latin1 s) (lit ''the '') \<longrightarrow> s \<noteq> [] \<and> last s = 32"
proof (intro allI impI)
  fix s :: pystr
  assume a: "length s \<le> 4 \<and> startswith (py_lower cpython_latin1 s) (lit ''the '')"
  have lo: "py_lower cpython_latin1 s = map latin1_lower_char s"
    by (simp add: cpython_latin1_def)
  have l: "length (lit ''the '') = 4" by (simp add: lit_def)
  from a have t: "take (length (lit ''the '')) (map latin1_lower_char s) = lit ''the ''"
    unfolding startswith_def lo by blast
  then have "length (take (length (lit ''the '')) (map latin1_lower_char s)) = length (lit ''the '')"
    by (rule arg_cong)
  then have "4 \<le> length s" unfolding l by simp
  with a have "length s = 4" by simp
  then obtain a b c d where s: "s = [a, b, c, d]"
    by (auto simp: numeral_eq_Suc length_Suc_conv)
  from t have "latin1_lower_char d = 32"
    unfolding l s by (simp add: lit_simps)
  then have "d = 32" by (simp add: latin1_lower_char_def split: if_splits)
  with s show "s \<noteq> [] \<and> last s = 32" by simp
qed

lemma latin1_space: "py_isspace cpython_latin1 32"
  by (simp add: cpython_latin1_def latin1_isspace_def)

text \<open>Away from trimmed names the guard of the formatter is missing in the key: for the
  bare article followed by its space the key is empty.\<close>

lemma key_of_untrimmed_article:
  "sort_key_artist cpython_latin1 True (lit ''the '') = []
   \<and> strip cpython_latin1 (lit ''the '') = lit ''the''"
  by code_simp

text \<open>
  C6. An artist name is trimmed (so is every name the harvest hands to \<open>sort_artists\<close>),
  and for every trimmed name the key \<open>sort_artists\<close> sorts by is the one stated: the
  name in lower case, except that with the option set and a name that starts, whatever
  its case, with \<open>the \<close> followed by more text, the first four characters are dropped.
  The library is taken to lower-case as CPython does: a string of at most four characters
  whose lower case starts with \<open>the \<close> ends with a space, and the space is whitespace.
  The result is sorted by this key, is a rearrangement of the names in the order the set
  lists them, and keeps names of equal key in that order: a stable sort.
\<close>

theorem sort_key_as_specified:
  assumes "\<forall>s. length s \<le> 4 \<and> startswith (py_lower L s) (lit ''the '') \<longrightarrow> s \<noteq> [] \<and> last s = 32"
    and "py_isspace L 32"
    and "strip L artist = artist"
  shows "sort_key_artist L ignore_the artist = spec_sort_key L ignore_the artist
   \<and> (\<forall>name \<in> fst (harvest L verbose event_urls w). strip L name = name)
   \<and> sorted (map (sort_key_artist L ignore_the) (sort_artists L artists ignore_the))
   \<and> mset (sort_artists L artists ignore_the) = mset (py_set_iter L artists)
   \<and> filter (\<lambda>x. sort_key_artist L ignore_the x = k) (sort_artists L artists ignore_the)
       = filter (\<lambda>x. sort_key_artist L ignore_the x = k) (py_set_iter L artists)"
proof -
  have "length artist > 4" if p: "startswith (py_lower L artist) (lit ''the '')"
  proof (rule ccontr)
    assume "\<not> length artist > 4"
    with p assms(1) have "artist \<noteq> []" and "last artist = 32" by auto
    with assms(2) trimmed_last [OF assms(3)] show False by simp
  qed
  then have "sort_key_artist L ignore_the artist = spec_sort_key L ignore_the artist"
    by (auto simp: sort_key_artist_def spec_sort_key_def)
  with harvest_trimmed [of L verbose event_urls w] sort_artists_stable [of L ignore_the artists k]
  show ?thesis by blast
qed

theorem sort_key_as_specified_witness:
  "strip cpython_latin1 (lit ''the Beatles'') = lit ''the Beatles''
   \<and> sort_key_artist cpython_latin1 True (lit ''the Beatles'') = lit ''beatles''
   \<and> sort_key_artist cpython_latin1 True (lit ''the Beatles'')
       = spec_sort_key cpython_latin1 True (lit ''the Beatles'')
   \<and> sort_artists cpython_latin1 {lit ''the Beatles'', lit ''ABBA'', lit ''Zebra'', lit ''123 Band''} True
       = [lit ''123 Band'', lit ''ABBA'', lit ''the Beatles'', lit ''Zebra'']"
proof -
  have t: "strip cpython_latin1 (lit ''the Beatles'') = lit ''the Beatles''" by code_simp
  have k: "sort_key_artist cpython_latin1 True (lit ''the Beatles'') = lit ''beatles''" by code_simp
  have e: "sort_key_artist cpython_latin1 True (lit ''the Beatles'')
       = spec_sort_key cpython_latin1 True (lit ''the Beatles'')"
    using sort_key_as_specified [OF latin1_article latin1_space t, of True False "[]" example_world "{}" "[]"]
    by (rule conjunct1)
  have s: "sort_artists cpython_latin1 {lit ''the Beatles'', lit ''ABBA'', lit ''Zebra'', lit ''123 Band''} True
       = [lit ''123 Band'', lit ''ABBA'', lit ''the Beatles'', lit ''Zebra'']"
    by code_simp
  from t k e s show ?thesis by blast
qed

end
